theory Spec2Isabelle
  imports Complex_Main "HOL-Library.Word" "HOL-Library.Sublist"
begin

section \<open>The URL-to-file relay bot: model of main.go and of its second variant\<close>

text \<open>
  The repository holds two versions of the same program: \<^verbatim>\<open>src/main.go\<close> and
  \<^verbatim>\<open>src/unnamed/part_000\<close>. They differ in three places only:
  \<^item> the constant \<^verbatim>\<open>MAX_TELEGRAM_FILE_SIZE\<close> (2000 MiB in main.go, 50 MiB in part_000);
  \<^item> the size check after the HEAD request (commented out in main.go, live in part_000);
  \<^item> how a failure is reported (main.go edits the status message with
    \<^verbatim>\<open>updateMessage\<close>, part_000 sends a new message with \<^verbatim>\<open>sendErrorMessage\<close>).
  One model covers both; the parameter of type \<open>variant\<close> selects the file.
\<close>

subsection \<open>Data\<close>

type_synonym byte = "8 word"

text \<open>Go's \<^verbatim>\<open>error\<close> values that the code can see: \<^verbatim>\<open>io.EOF\<close> and any other error.\<close>

datatype go_error = EOF | IOError nat

text \<open>
  The result of one call of \<^verbatim>\<open>Read(p)\<close> on an \<^verbatim>\<open>io.Reader\<close>: the bytes put into
  \<^verbatim>\<open>p\<close> (their number is \<^verbatim>\<open>n\<close>) and the error, \<open>None\<close> for \<^verbatim>\<open>nil\<close>.
\<close>

type_synonym read_result = "byte list \<times> go_error option"

text \<open>
  The underlying stream (\<^verbatim>\<open>resp.Body\<close>) is the list of the results its successive reads
  will give; once the list is used up, a read gives \<^verbatim>\<open>(0, io.EOF)\<close>. A stream is thus
  any finite sequence of reads; one that never ends, on which \<^verbatim>\<open>io.Copy\<close> would not return,
  is outside the model.
\<close>

fun reader_Read :: "read_result list \<Rightarrow> read_result \<times> read_result list" where
  "reader_Read [] = (([], Some EOF), [])"
| "reader_Read (r # rs) = (r, rs)"

text \<open>
  \<^verbatim>\<open>type ProgressReader struct { io.Reader; total int64; downloaded int64; onProgress func(float64) }\<close>.
  The callback acts on a state of type \<open>'w\<close>; \<^verbatim>\<open>int64\<close> is \<open>64 word\<close> read with \<open>sint\<close>.
\<close>

record 'w ProgressReader =
  Reader :: "read_result list"
  total :: "64 word"
  downloaded :: "64 word"
  onProgress :: "real \<Rightarrow> 'w \<Rightarrow> 'w"

text \<open>
  \<^verbatim>\<open>float64(pr.downloaded) / float64(pr.total) * 100\<close>. A \<^verbatim>\<open>float64\<close> operation is the
  exact operation followed by rounding; \<open>fl\<close> is that rounding, applied after the two
  conversions (\<open>float64\<close>), the division and the multiplication.
\<close>

definition float64 :: "(real \<Rightarrow> real) \<Rightarrow> 64 word \<Rightarrow> real" where
  "float64 fl n = fl (real_of_int (sint n))"

definition progress_of :: "(real \<Rightarrow> real) \<Rightarrow> 64 word \<Rightarrow> 64 word \<Rightarrow> real" where
  "progress_of fl d t = fl (fl (float64 fl d / float64 fl t) * 100)"

text \<open>
  What the theorems about progress values assume of the rounding: it is monotone and
  leaves 0, 1 and 100 as they are. Rounding to nearest does both, and so does no rounding.
\<close>

definition float_rounding :: "(real \<Rightarrow> real) \<Rightarrow> bool" where
  "float_rounding fl \<longleftrightarrow> mono fl \<and> fl 0 = 0 \<and> fl 1 = 1 \<and> fl 100 = 100"

text \<open>
  \<^verbatim>\<open>func (pr *ProgressReader) Read(p []byte) (int, error)\<close>: the underlying read, the
  wrapping addition to \<^verbatim>\<open>downloaded\<close>, the callback when \<^verbatim>\<open>total > 0\<close>, and the
  underlying result returned.
\<close>

definition ProgressReader_Read ::
  "(real \<Rightarrow> real) \<Rightarrow> 'w ProgressReader \<Rightarrow> 'w \<Rightarrow> read_result \<times> 'w ProgressReader \<times> 'w" where
  "ProgressReader_Read fl pr w =
     (let (res, rest) = reader_Read (Reader pr);
          pr' = pr\<lparr>Reader := rest, downloaded := downloaded pr + of_nat (length (fst res))\<rparr>
      in if 0 <s total pr'
         then (res, pr', onProgress pr' (progress_of fl (downloaded pr') (total pr')) w)
         else (res, pr', w))"

text \<open>\<open>n\<close> successive reads through the tap, whatever each of them returns.\<close>

fun read_n :: "(real \<Rightarrow> real) \<Rightarrow> nat \<Rightarrow> 'w ProgressReader \<Rightarrow> 'w \<Rightarrow> 'w ProgressReader \<times> 'w" where
  "read_n fl 0 pr w = (pr, w)"
| "read_n fl (Suc n) pr w =
     (case ProgressReader_Read fl pr w of (res, pr', w') \<Rightarrow> read_n fl n pr' w')"

text \<open>The number of bytes a stream delivers in all.\<close>

definition stream_bytes :: "read_result list \<Rightarrow> nat" where
  "stream_bytes rs = sum_list (map (\<lambda>r. length (fst r)) rs)"

text \<open>A tap over a stream whose callback writes each value it is given at the end of a list.\<close>

definition recording_tap :: "read_result list \<Rightarrow> 64 word \<Rightarrow> real list ProgressReader" where
  "recording_tap rs t =
     \<lparr>Reader = rs, total = t, downloaded = 0, onProgress = (\<lambda>p vs. vs @ [p])\<rparr>"

subsection \<open>The chat gateway, the network, the file system and the clock\<close>

text \<open>The texts of the status messages; the two formatted ones carry the number shown.\<close>

datatype status_text =
    Starting
  | FailedInfo
  | TooLargeMsg real
  | FailedDownload
  | FailedTemp
  | Downloading real
  | FailedSave
  | Uploading
  | FailedSend
  | SentOK

text \<open>
  The calls the program makes to the outside, in the order it makes them. An edit names the
  message it edits by its \<^verbatim>\<open>MessageID\<close>. Every message goes to \<^verbatim>\<open>message.Chat.ID\<close>,
  which is left out.
\<close>

datatype event =
    SendMessage status_text
  | EditMessage int status_text
  | SendDocument
  | LogPrintf
  | HttpHead
  | HttpGet
  | CreateTemp
  | FileWrite "byte list"
  | FileSeek
  | FileClose
  | OsRemove
  | BodyClose

text \<open>
  What the outside answers.
  \<^item> \<open>status_ok\<close> and \<open>status_id\<close>: the result of sending the first message, whether it
    succeeded and the \<^verbatim>\<open>MessageID\<close> it got;
  \<^item> \<open>head_result\<close>: \<^verbatim>\<open>resp.ContentLength\<close> of the HEAD response (\<open>-1\<close> when unknown), or
    \<open>None\<close> for an error;
  \<^item> \<open>get_result\<close>: the body of the GET response, or \<open>None\<close> for an error;
  \<^item> \<open>temp_ok\<close>, \<open>upload_ok\<close>, \<open>errmsg_ok\<close>: whether \<^verbatim>\<open>os.CreateTemp\<close>, sending the
    document and sending a failure message succeed;
  \<^item> \<open>edit_ok k\<close>: whether the \<open>k\<close>-th edit succeeds; \<open>write_err k\<close>: the error of the
    \<open>k\<close>-th write to the temporary file;
  \<^item> \<open>clk k\<close>: the \<open>k\<close>-th reading of the clock, in nanoseconds.
\<close>

record env =
  status_ok :: bool
  status_id :: int
  head_result :: "64 word option"
  get_result :: "read_result list option"
  temp_ok :: bool
  write_err :: "nat \<Rightarrow> go_error option"
  upload_ok :: bool
  edit_ok :: "nat \<Rightarrow> bool"
  errmsg_ok :: bool
  clk :: "nat \<Rightarrow> int"

text \<open>
  The state of one run: the calls made so far, how many clock readings, edits and writes
  there were, whether the temporary file exists, and the variable \<^verbatim>\<open>lastUpdate\<close> that the
  progress closure captures.
\<close>

record world =
  trace :: "event list"
  ticks :: nat
  edits :: nat
  writes :: nat
  staged :: bool
  lastUpdate :: int

definition world0 :: world where
  "world0 = \<lparr>trace = [], ticks = 0, edits = 0, writes = 0, staged = False, lastUpdate = 0\<rparr>"

definition emit :: "event \<Rightarrow> world \<Rightarrow> world" where
  "emit e w = w\<lparr>trace := trace w @ [e]\<rparr>"

text \<open>\<^verbatim>\<open>bot.Send(edit)\<close>: the call and its result.\<close>

definition bot_Send_edit :: "env \<Rightarrow> int \<Rightarrow> status_text \<Rightarrow> world \<Rightarrow> bool \<times> world" where
  "bot_Send_edit e messageID txt w =
     (edit_ok e (edits w), (emit (EditMessage messageID txt) w)\<lparr>edits := Suc (edits w)\<rparr>)"

text \<open>\<^verbatim>\<open>bot.Send(msg)\<close> for a new text message, with the result the caller names.\<close>

definition bot_Send_message :: "'r \<Rightarrow> status_text \<Rightarrow> world \<Rightarrow> 'r \<times> world" where
  "bot_Send_message res txt w = (res, emit (SendMessage txt) w)"

text \<open>\<^verbatim>\<open>func updateMessage\<close>: builds the edit, sends it, drops both results.\<close>

definition updateMessage :: "env \<Rightarrow> int \<Rightarrow> status_text \<Rightarrow> world \<Rightarrow> world" where
  "updateMessage e messageID txt w = snd (bot_Send_edit e messageID txt w)"

text \<open>\<^verbatim>\<open>func sendErrorMessage\<close>: builds a new message, sends it, drops both results.\<close>

definition sendErrorMessage :: "env \<Rightarrow> status_text \<Rightarrow> world \<Rightarrow> world" where
  "sendErrorMessage e txt w = snd (bot_Send_message (errmsg_ok e) txt w)"

text \<open>\<^verbatim>\<open>time.Now()\<close>.\<close>

definition time_Now :: "env \<Rightarrow> world \<Rightarrow> int \<times> world" where
  "time_Now e w = (clk e (ticks w), w\<lparr>ticks := Suc (ticks w)\<rparr>)"

definition second :: int where
  "second = 1000000000"

text \<open>
  The closure given as \<^verbatim>\<open>onProgress\<close>:
  \<^verbatim>\<open>if time.Since(lastUpdate) >= 2*time.Second { updateMessage(...); lastUpdate = time.Now() }\<close>.
  It captures \<^verbatim>\<open>status.MessageID\<close> and \<^verbatim>\<open>lastUpdate\<close>.
\<close>

definition onProgress_closure :: "env \<Rightarrow> int \<Rightarrow> real \<Rightarrow> world \<Rightarrow> world" where
  "onProgress_closure e messageID progress w =
     (case time_Now e w of (now, w1) \<Rightarrow>
        if now - lastUpdate w1 \<ge> 2 * second
        then (case time_Now e (updateMessage e messageID (Downloading progress) w1) of
                (now', w3) \<Rightarrow> w3\<lparr>lastUpdate := now'\<rparr>)
        else w1)"

text \<open>\<^verbatim>\<open>tempFile.Write(buf[0:nr])\<close>; a short write comes with an error.\<close>

definition file_Write :: "env \<Rightarrow> byte list \<Rightarrow> world \<Rightarrow> go_error option \<times> world" where
  "file_Write e bs w = (write_err e (writes w), (emit (FileWrite bs) w)\<lparr>writes := Suc (writes w)\<rparr>)"

text \<open>
  \<^verbatim>\<open>io.Copy(tempFile, progressReader)\<close>. The tap has no method but \<^verbatim>\<open>Read\<close>, so the copy is
  the standard library's loop (\<^verbatim>\<open>copyBuffer\<close>). One turn of it: read; if bytes came, write
  them and stop on a write error; stop on a read error, which is reported unless it is
  \<^verbatim>\<open>io.EOF\<close>. The result \<open>None\<close> means the loop goes on, \<open>Some err\<close> that it stops with
  \<open>err\<close>.
\<close>

definition copy_iter ::
  "(real \<Rightarrow> real) \<Rightarrow> env \<Rightarrow> world ProgressReader \<Rightarrow> world
     \<Rightarrow> go_error option option \<times> world ProgressReader \<times> world" where
  "copy_iter fl e pr w =
     (case ProgressReader_Read fl pr w of ((bs, er), pr', w1) \<Rightarrow>
        (case (if bs \<noteq> [] then file_Write e bs w1 else (None, w1)) of (ew, w2) \<Rightarrow>
           (case ew of
              Some x \<Rightarrow> (Some (Some x), pr', w2)
            | None \<Rightarrow>
                (case er of
                   Some x \<Rightarrow> (Some (if x = EOF then None else Some x), pr', w2)
                 | None \<Rightarrow> (None, pr', w2)))))"

function io_Copy ::
  "(real \<Rightarrow> real) \<Rightarrow> env \<Rightarrow> world ProgressReader \<Rightarrow> world
     \<Rightarrow> go_error option \<times> world ProgressReader \<times> world" where
  "io_Copy fl e pr w =
     (case copy_iter fl e pr w of
        (Some err, pr', w') \<Rightarrow> (err, pr', w')
      | (None, pr', w') \<Rightarrow> io_Copy fl e pr' w')"
  by pat_completeness auto

termination io_Copy
  apply (relation "measure (\<lambda>(fl, e, pr, w). length (Reader pr))")
   apply simp
  apply clarsimp
  subgoal for fl e pr w pr' w'
    by (cases "Reader pr")
       (auto simp: copy_iter_def ProgressReader_Read_def file_Write_def Let_def
             split: prod.splits option.splits if_splits)
  done

subsection \<open>handleURL\<close>

datatype variant = MainGo | Part000

definition MAX_TELEGRAM_FILE_SIZE :: "variant \<Rightarrow> 64 word" where
  "MAX_TELEGRAM_FILE_SIZE v = (case v of MainGo \<Rightarrow> 2000 * 1024 * 1024 | Part000 \<Rightarrow> 50 * 1024 * 1024)"

text \<open>The size check is live code in part_000 and a comment in main.go.\<close>

definition size_check_enabled :: "variant \<Rightarrow> bool" where
  "size_check_enabled v = (case v of MainGo \<Rightarrow> False | Part000 \<Rightarrow> True)"

text \<open>A failure is reported by \<^verbatim>\<open>updateMessage\<close> in main.go, by \<^verbatim>\<open>sendErrorMessage\<close> in part_000.\<close>

definition report_error :: "variant \<Rightarrow> env \<Rightarrow> int \<Rightarrow> status_text \<Rightarrow> world \<Rightarrow> world" where
  "report_error v e messageID txt w =
     (case v of MainGo \<Rightarrow> updateMessage e messageID txt w | Part000 \<Rightarrow> sendErrorMessage e txt w)"

text \<open>\<^verbatim>\<open>sizeMB := float64(fileSize) / 1024 / 1024\<close>.\<close>

definition sizeMB :: "(real \<Rightarrow> real) \<Rightarrow> 64 word \<Rightarrow> real" where
  "sizeMB fl n = fl (fl (float64 fl n / 1024) / 1024)"

text \<open>
  \<^verbatim>\<open>os.Remove(tempFile.Name())\<close>: the call deletes the file. The code drops its result; a
  removal that the system refuses is not modelled.
\<close>

definition os_Remove :: "world \<Rightarrow> world" where
  "os_Remove w = (emit OsRemove w)\<lparr>staged := False\<rparr>"

text \<open>
  The part of \<^verbatim>\<open>handleURL\<close> that runs once the temporary file exists and its two
  deferred calls are registered: from \<^verbatim>\<open>lastUpdate := time.Now()\<close> to the end.
\<close>

definition handleURL_staged ::
  "variant \<Rightarrow> (real \<Rightarrow> real) \<Rightarrow> env \<Rightarrow> int \<Rightarrow> 64 word \<Rightarrow> read_result list \<Rightarrow> world
     \<Rightarrow> world" where
  "handleURL_staged v fl e messageID fileSize body w =
     (case time_Now e w of (now, w1) \<Rightarrow>
        (case io_Copy fl e
                \<lparr>Reader = body, total = fileSize, downloaded = 0,
                 onProgress = onProgress_closure e messageID\<rparr>
                (w1\<lparr>lastUpdate := now\<rparr>) of
           (err, pr', w3) \<Rightarrow>
             (case err of
                Some x \<Rightarrow> report_error v e messageID FailedSave w3
              | None \<Rightarrow>
                  (case emit SendDocument
                          (emit FileSeek (updateMessage e messageID Uploading w3)) of w6 \<Rightarrow>
                     if \<not> upload_ok e then report_error v e messageID FailedSend w6
                     else updateMessage e messageID SentOK w6))))"

text \<open>
  \<^verbatim>\<open>func handleURL\<close>, from the first line. The deferred calls run when the function
  returns, last registered first: \<^verbatim>\<open>tempFile.Close()\<close>, \<^verbatim>\<open>os.Remove(tempFile.Name())\<close>,
  \<^verbatim>\<open>resp.Body.Close()\<close>. The name of the temporary file plays no part in what follows
  and is left out.
\<close>

definition handleURL :: "variant \<Rightarrow> (real \<Rightarrow> real) \<Rightarrow> env \<Rightarrow> world" where
  "handleURL v fl e =
     (case bot_Send_message (status_ok e, status_id e) Starting world0 of ((ok, messageID), w1) \<Rightarrow>
        if \<not> ok then emit LogPrintf w1
        else
          (case head_result e of
             None \<Rightarrow> report_error v e messageID FailedInfo (emit HttpHead w1)
           | Some fileSize \<Rightarrow>
               if size_check_enabled v \<and> MAX_TELEGRAM_FILE_SIZE v <s fileSize
               then sendErrorMessage e (TooLargeMsg (sizeMB fl fileSize)) (emit HttpHead w1)
               else
                 (case get_result e of
                    None \<Rightarrow>
                      report_error v e messageID FailedDownload (emit HttpGet (emit HttpHead w1))
                  | Some body \<Rightarrow>
                      emit BodyClose
                        (if \<not> temp_ok e
                         then report_error v e messageID FailedTemp
                                (emit CreateTemp (emit HttpGet (emit HttpHead w1)))
                         else os_Remove (emit FileClose
                                (handleURL_staged v fl e messageID fileSize body
                                   ((emit CreateTemp (emit HttpGet (emit HttpHead w1)))
                                      \<lparr>staged := True\<rparr>)))))))"

subsection \<open>Notions used in the statements and proofs\<close>

text \<open>
  The invariant of a recording tap over a stream that delivers no more than the declared
  total: the counter is not negative and, with the bytes still to come, stays within the
  total, so the addition to it never wraps.
\<close>

definition tap_inv :: "real list ProgressReader \<Rightarrow> bool" where
  "tap_inv pr \<longleftrightarrow> 0 <s total pr \<and> onProgress pr = (\<lambda>p vs. vs @ [p])
     \<and> 0 \<le> sint (downloaded pr)
     \<and> sint (downloaded pr) + int (stream_bytes (Reader pr)) \<le> sint (total pr)"

text \<open>
  The same for any stream of fewer than \<open>2 ^ 63\<close> bytes, whatever the declared total:
  the counter is not negative and does not wrap.
\<close>

definition tap_nowrap :: "real list ProgressReader \<Rightarrow> bool" where
  "tap_nowrap pr \<longleftrightarrow> 0 <s total pr \<and> onProgress pr = (\<lambda>p vs. vs @ [p])
     \<and> 0 \<le> sint (downloaded pr)
     \<and> sint (downloaded pr) + int (stream_bytes (Reader pr)) < 2 ^ 63"

text \<open>Streams and taps used as examples.\<close>

definition two_chunks :: "read_result list" where
  "two_chunks = [([1, 2, 3, 4, 5], None), ([6, 7, 8, 9, 10], None)]"

definition twenty_bytes :: "read_result list" where
  "twenty_bytes = [(replicate 20 0, None)]"

definition counting_tap :: "nat ProgressReader" where
  "counting_tap = \<lparr>Reader = two_chunks, total = - 1, downloaded = 0, onProgress = (\<lambda>p k. Suc k)\<rparr>"

definition failing_stream :: "read_result list" where
  "failing_stream = [([1, 2, 3], Some (IOError 7))]"

text \<open>The call by which a failure text reaches the user: an edit in main.go, a send in part_000.\<close>

definition report_event :: "variant \<Rightarrow> int \<Rightarrow> status_text \<Rightarrow> event" where
  "report_event v m t = (case v of MainGo \<Rightarrow> EditMessage m t | Part000 \<Rightarrow> SendMessage t)"

text \<open>The calls the copy loop can make: writes, and edits of message \<open>m\<close> to a percentage.\<close>

fun copy_event :: "int \<Rightarrow> event \<Rightarrow> bool" where
  "copy_event m (FileWrite bs) = True"
| "copy_event m (EditMessage m' (Downloading p)) = (m' = m)"
| "copy_event m _ = False"

text \<open>The three ways the part after the copy loop can go: copy failed, upload failed, success.\<close>

definition closing_events :: "variant \<Rightarrow> int \<Rightarrow> event list list" where
  "closing_events v m =
     [[report_event v m FailedSave],
      [EditMessage m Uploading, FileSeek, SendDocument, report_event v m FailedSend],
      [EditMessage m Uploading, FileSeek, SendDocument, EditMessage m SentOK]]"

text \<open>Newly sent text messages, and the texts that report a failure.\<close>

fun is_send :: "event \<Rightarrow> bool" where
  "is_send (SendMessage t) = True"
| "is_send _ = False"

fun is_failure_text :: "status_text \<Rightarrow> bool" where
  "is_failure_text FailedInfo = True"
| "is_failure_text (TooLargeMsg x) = True"
| "is_failure_text FailedDownload = True"
| "is_failure_text FailedTemp = True"
| "is_failure_text FailedSave = True"
| "is_failure_text FailedSend = True"
| "is_failure_text _ = False"

text \<open>The traces a run of \<^verbatim>\<open>handleURL\<close> can leave, one line for each way out of the function.\<close>

definition run_shape :: "variant \<Rightarrow> env \<Rightarrow> event list \<Rightarrow> bool" where
  "run_shape v e t \<longleftrightarrow>
     t = [SendMessage Starting, LogPrintf]
   \<or> t = [SendMessage Starting, HttpHead, report_event v (status_id e) FailedInfo]
   \<or> (v = Part000 \<and> (\<exists>x. t = [SendMessage Starting, HttpHead, SendMessage (TooLargeMsg x)]))
   \<or> t = [SendMessage Starting, HttpHead, HttpGet, report_event v (status_id e) FailedDownload]
   \<or> (\<not> temp_ok e
       \<and> t = [SendMessage Starting, HttpHead, HttpGet, CreateTemp,
              report_event v (status_id e) FailedTemp, BodyClose])
   \<or> (temp_ok e
       \<and> (\<exists>xs ys. (\<forall>x\<in>set xs. copy_event (status_id e) x)
              \<and> ys \<in> set (closing_events v (status_id e))
              \<and> t = [SendMessage Starting, HttpHead, HttpGet, CreateTemp] @ xs @ ys
                     @ [FileClose, OsRemove, BodyClose]))"

text \<open>
  The progress closure called with the values \<open>ps\<close>, one after the other, from the state
  \<open>w\<close>: the clock readings taken by those calls that edited the status message. A call
  edited it when it added to the trace; its reading is the one it took for
  \<^verbatim>\<open>time.Since(lastUpdate)\<close>.
\<close>

fun fire_times :: "env \<Rightarrow> int \<Rightarrow> world \<Rightarrow> real list \<Rightarrow> int list" where
  "fire_times e m w [] = []"
| "fire_times e m w (p # ps) =
     (if trace (onProgress_closure e m p w) \<noteq> trace w then [clk e (ticks w)] else [])
       @ fire_times e m (onProgress_closure e m p w) ps"

text \<open>
  What the throttle shows of a state: the number of clock readings, \<^verbatim>\<open>lastUpdate\<close>, and the
  edits to a percentage made so far.
\<close>

fun is_progress_edit :: "event \<Rightarrow> bool" where
  "is_progress_edit (EditMessage m (Downloading p)) = True"
| "is_progress_edit _ = False"

definition throttle_view :: "world \<Rightarrow> nat \<times> int \<times> event list" where
  "throttle_view w = (ticks w, lastUpdate w, filter is_progress_edit (trace w))"

text \<open>The progress closure called with the values \<open>ps\<close>, one after the other, and nothing else.\<close>

definition closure_run :: "env \<Rightarrow> int \<Rightarrow> world \<Rightarrow> real list \<Rightarrow> world" where
  "closure_run e m w ps = foldl (\<lambda>w p. onProgress_closure e m p w) w ps"

text \<open>
  The copy loop as \<^verbatim>\<open>handleURL\<close> runs it from the state \<open>w\<close>: the clock is read, the reading
  is stored in \<^verbatim>\<open>lastUpdate\<close>, the tap is made with the closure, and \<^verbatim>\<open>io.Copy\<close> runs.
\<close>

definition copy_result ::
  "(real \<Rightarrow> real) \<Rightarrow> env \<Rightarrow> int \<Rightarrow> 64 word \<Rightarrow> read_result list \<Rightarrow> world
     \<Rightarrow> go_error option \<times> world ProgressReader \<times> world" where
  "copy_result fl e m n body w =
     io_Copy fl e
       \<lparr>Reader = body, total = n, downloaded = 0, onProgress = onProgress_closure e m\<rparr>
       (w\<lparr>ticks := Suc (ticks w), lastUpdate := clk e (ticks w)\<rparr>)"

text \<open>
  The state of a run of \<^verbatim>\<open>handleURL\<close> once the temporary file exists, and the answers of the
  outside with which a run gets there: the first send, the probe and the GET succeed, the
  size check (where it is live) lets the declared length \<open>n\<close> pass, and the file is created.
\<close>

definition staging_world :: world where
  "staging_world =
     world0\<lparr>trace := [SendMessage Starting, HttpHead, HttpGet, CreateTemp], staged := True\<rparr>"

definition reaches_copy :: "variant \<Rightarrow> env \<Rightarrow> 64 word \<Rightarrow> read_result list \<Rightarrow> bool" where
  "reaches_copy v e n body \<longleftrightarrow>
     status_ok e \<and> head_result e = Some n
     \<and> \<not> (size_check_enabled v \<and> MAX_TELEGRAM_FILE_SIZE v <s n)
     \<and> get_result e = Some body \<and> temp_ok e"

text \<open>
  Sample answers of the outside. In \<open>env_ok\<close> everything succeeds: 10 bytes declared, 10
  bytes delivered in two reads, the clock read every three seconds. The others differ from
  it in one answer: a declared length of 3000000000 bytes, a failing HEAD request, a failing
  first send.
\<close>

definition env_ok :: env where
  "env_ok =
     \<lparr>status_ok = True, status_id = 42, head_result = Some 10, get_result = Some two_chunks,
      temp_ok = True, write_err = (\<lambda>k. None), upload_ok = True, edit_ok = (\<lambda>k. True),
      errmsg_ok = True, clk = (\<lambda>k. int k * 3 * second)\<rparr>"

definition env_big :: env where
  "env_big = env_ok\<lparr>head_result := Some 3000000000\<rparr>"

definition env_noprobe :: env where
  "env_noprobe = env_ok\<lparr>head_result := None\<rparr>"

definition env_nostatus :: env where
  "env_nostatus = env_ok\<lparr>status_ok := False\<rparr>"

section \<open>Proofs\<close>

declare io_Copy.simps [simp del]

subsection \<open>The progress tap\<close>

lemma sint_add_of_nat:
  fixes x :: "64 word"
  assumes "0 \<le> sint x" and "sint x + int n < 2 ^ 63"
  shows "sint (x + of_nat n) = sint x + int n"
proof -
  have n: "int n < 2 ^ 63" using assms by linarith
  have "sint (of_nat n :: 64 word) = int n"
    using n by (simp add: signed_of_nat signed_take_bit_int_eq_self) 
  then show ?thesis
    using assms by (simp add: sint_word_ariths signed_take_bit_int_eq_self)
qed

lemma sint_less_2p63: "sint (x :: 64 word) < 2 ^ 63"
  using sint_lt [of x] by simp

lemma fl_mono:
  assumes "float_rounding fl" and "x \<le> y"
  shows "fl x \<le> fl y"
  using assms unfolding float_rounding_def mono_def by blast

lemma float64_mono:
  assumes "float_rounding fl" and "sint a \<le> sint b"
  shows "float64 fl a \<le> float64 fl b"
  unfolding float64_def using assms(2) by (intro fl_mono [OF assms(1)]) (simp only: of_int_le_iff)

lemma float64_pos:
  assumes "float_rounding fl" and "0 < sint t"
  shows "1 \<le> float64 fl t"
proof -
  have "(1::real) \<le> real_of_int (sint t)"
    using assms(2) by (simp only: of_int_1_le_iff)
  then have "fl 1 \<le> fl (real_of_int (sint t))"
    by (rule fl_mono [OF assms(1)])
  then show ?thesis
    using assms(1) by (simp only: float64_def float_rounding_def)
qed

lemma float64_zero:
  assumes "float_rounding fl"
  shows "float64 fl 0 = 0"
  using assms by (simp add: float64_def float_rounding_def)

lemma progress_of_mono:
  assumes fr: "float_rounding fl" and t: "0 < sint t" and d: "sint d \<le> sint d'"
  shows "progress_of fl d t \<le> progress_of fl d' t"
proof -
  have tpos: "0 < float64 fl t"
    using float64_pos [OF fr t] by linarith
  have "float64 fl d / float64 fl t \<le> float64 fl d' / float64 fl t"
    using tpos float64_mono [OF fr d] by (simp add: divide_right_mono)
  then have "fl (float64 fl d / float64 fl t) * 100 \<le> fl (float64 fl d' / float64 fl t) * 100"
    by (simp add: fl_mono [OF fr])
  then show ?thesis
    unfolding progress_of_def by (rule fl_mono [OF fr])
qed

lemma progress_of_full:
  assumes fr: "float_rounding fl" and t: "0 < sint t"
  shows "progress_of fl t t = 100"
proof -
  have "0 < float64 fl t"
    using float64_pos [OF fr t] by linarith
  then have "float64 fl t / float64 fl t = 1"
    by simp
  then show ?thesis
    using fr by (simp add: progress_of_def float_rounding_def)
qed

lemma progress_of_zero:
  assumes fr: "float_rounding fl"
  shows "progress_of fl 0 t = 0"
  using fr by (simp add: progress_of_def float64_zero float_rounding_def)

lemma progress_of_nonneg:
  assumes fr: "float_rounding fl" and t: "0 < sint t" and d: "0 \<le> sint d"
  shows "0 \<le> progress_of fl d t"
  using progress_of_mono [OF fr t, of 0 d] d progress_of_zero [OF fr, of t] by simp

text \<open>One read through a recording tap.\<close>

lemma recording_read:
  assumes "0 <s total pr" and "onProgress pr = (\<lambda>p vs. vs @ [p])"
  shows "ProgressReader_Read fl pr vs =
     (fst (reader_Read (Reader pr)),
      pr\<lparr>Reader := snd (reader_Read (Reader pr)),
         downloaded := downloaded pr + of_nat (length (fst (fst (reader_Read (Reader pr)))))\<rparr>,
      vs @ [progress_of fl (downloaded pr + of_nat (length (fst (fst (reader_Read (Reader pr)))))) (total pr)])"
  using assms by (simp add: ProgressReader_Read_def Let_def split: prod.splits)

lemma stream_bytes_Read:
  "length (fst (fst (reader_Read rs))) + stream_bytes (snd (reader_Read rs)) = stream_bytes rs"
  by (cases rs) (simp_all add: stream_bytes_def)

lemma length_reader_Read: "length (snd (reader_Read rs)) = length rs - 1"
  by (cases rs) simp_all

lemma read_n_recording:
  assumes fr: "float_rounding fl"
  shows "tap_inv pr \<Longrightarrow> sorted vs \<Longrightarrow> \<forall>p\<in>set vs. 0 \<le> p \<and> p \<le> progress_of fl (downloaded pr) (total pr) \<Longrightarrow>
    (case read_n fl n pr vs of (pr', vs') \<Rightarrow>
       tap_inv pr' \<and> total pr' = total pr \<and> sorted vs'
       \<and> (\<forall>p\<in>set vs'. 0 \<le> p \<and> p \<le> progress_of fl (downloaded pr') (total pr))
       \<and> (0 < n \<longrightarrow> vs' \<noteq> [] \<and> last vs' = progress_of fl (downloaded pr') (total pr))
       \<and> sint (downloaded pr') + int (stream_bytes (Reader pr')) = sint (downloaded pr) + int (stream_bytes (Reader pr))
       \<and> length (Reader pr') = length (Reader pr) - n)"
proof (induction n arbitrary: pr vs)
  case 0
  then show ?case by simp
next
  case (Suc n)
  let ?k = "length (fst (fst (reader_Read (Reader pr))))"
  let ?pr = "pr\<lparr>Reader := snd (reader_Read (Reader pr)), downloaded := downloaded pr + of_nat ?k\<rparr>"
  let ?v = "progress_of fl (downloaded pr + of_nat ?k) (total pr)"
  have inv: "0 <s total pr" "onProgress pr = (\<lambda>p vs. vs @ [p])" "0 \<le> sint (downloaded pr)"
    "sint (downloaded pr) + int (stream_bytes (Reader pr)) \<le> sint (total pr)"
    using Suc.prems(1) by (simp_all add: tap_inv_def)
  have tpos: "0 < sint (total pr)"
    using inv(1) by (simp add: word_sless_alt)
  have sb: "int ?k + int (stream_bytes (snd (reader_Read (Reader pr)))) = int (stream_bytes (Reader pr))"
    using stream_bytes_Read [of "Reader pr"] by linarith
  have bound: "sint (downloaded pr) + int ?k < 2 ^ 63"
    using inv(4) sb sint_less_2p63 [of "total pr"] by linarith
  have dl: "sint (downloaded pr + of_nat ?k) = sint (downloaded pr) + int ?k"
    using inv(3) bound by (rule sint_add_of_nat)
  have step: "ProgressReader_Read fl pr vs = (fst (reader_Read (Reader pr)), ?pr, vs @ [?v])"
    using recording_read [OF inv(1) inv(2)] .
  have inv': "tap_inv ?pr"
    using inv sb dl by (simp add: tap_inv_def)
  have up: "progress_of fl (downloaded pr) (total pr) \<le> ?v"
    using dl by (intro progress_of_mono [OF fr tpos]) simp
  have v0: "0 \<le> ?v"
    using dl inv(3) by (intro progress_of_nonneg [OF fr tpos]) simp
  have sorted': "sorted (vs @ [?v])"
    using Suc.prems(2,3) up by (auto simp: sorted_append)
  have le': "\<forall>p\<in>set (vs @ [?v]). 0 \<le> p \<and> p \<le> progress_of fl (downloaded ?pr) (total ?pr)"
    using Suc.prems(3) up v0 by auto
  have IH: "case read_n fl n ?pr (vs @ [?v]) of (pr', vs') \<Rightarrow>
       tap_inv pr' \<and> total pr' = total ?pr \<and> sorted vs'
       \<and> (\<forall>p\<in>set vs'. 0 \<le> p \<and> p \<le> progress_of fl (downloaded pr') (total ?pr))
       \<and> (0 < n \<longrightarrow> vs' \<noteq> [] \<and> last vs' = progress_of fl (downloaded pr') (total ?pr))
       \<and> sint (downloaded pr') + int (stream_bytes (Reader pr')) = sint (downloaded ?pr) + int (stream_bytes (Reader ?pr))
       \<and> length (Reader pr') = length (Reader ?pr) - n"
    by (rule Suc.IH [OF inv' sorted' le'])
  show ?case
  proof (cases n)
    case 0
    then show ?thesis
      using step inv' sorted' le' dl sb by (simp add: length_reader_Read)
  next
    case (Suc m)
    then show ?thesis
      using IH step dl sb by (auto simp: length_reader_Read split: prod.splits)
  qed
qed

lemma tap_inv_recording:
  assumes "0 <s T" and "int (stream_bytes rs) \<le> sint T"
  shows "tap_inv (recording_tap rs T)"
  using assms by (simp add: tap_inv_def recording_tap_def)

text \<open>
  Claim C4. Let the declared total \<open>T\<close> be positive and let the stream deliver \<open>T\<close> bytes in
  all, in reads of any sizes. Then the values the tap gives its callback over any number of
  reads never decrease, and once every read of the stream has been made the last value
  given is exactly 100. The rounding of \<^verbatim>\<open>float64\<close> is any monotone function that keeps 0, 1
  and 100.
\<close>

theorem progress_monotone_final_100:
  assumes "float_rounding fl" and "0 <s T" and "int (stream_bytes rs) = sint T"
  shows "sorted (snd (read_n fl n (recording_tap rs T) []))
     \<and> (length rs \<le> n \<longrightarrow>
          snd (read_n fl n (recording_tap rs T) []) \<noteq> []
          \<and> last (snd (read_n fl n (recording_tap rs T) [])) = 100)"
proof -
  obtain pr' vs' where r: "read_n fl n (recording_tap rs T) [] = (pr', vs')"
    by (cases "read_n fl n (recording_tap rs T) []")
  have inv: "tap_inv (recording_tap rs T)"
    using assms(2,3) by (intro tap_inv_recording) simp_all
  have tpos: "0 < sint T"
    using assms(2) by (simp add: word_sless_alt)
  have facts: "tap_inv pr'" "sorted vs'"
    "0 < n \<longrightarrow> vs' \<noteq> [] \<and> last vs' = progress_of fl (downloaded pr') T"
    "sint (downloaded pr') + int (stream_bytes (Reader pr')) = int (stream_bytes rs)"
    "length (Reader pr') = length rs - n"
    using read_n_recording [OF assms(1) inv, of "[]" n] r
    by (simp_all add: recording_tap_def)
  have "rs \<noteq> []"
    using assms(3) tpos by (auto simp: stream_bytes_def)
  have fin: "last vs' = 100 \<and> vs' \<noteq> []" if "length rs \<le> n"
  proof -
    have "0 < n" using that \<open>rs \<noteq> []\<close> by (cases rs) auto
    moreover have "Reader pr' = []" using facts(5) that by simp
    then have "sint (downloaded pr') = sint T"
      using facts(4) assms(3) by (simp add: stream_bytes_def)
    then have "downloaded pr' = T" by (simp add: word_eq_iff_signed [where 'a = int])
    ultimately show ?thesis
      using facts(3) progress_of_full [OF assms(1) tpos] by simp
  qed
  show ?thesis
    using r facts(2) fin by simp
qed

lemma float_rounding_id: "float_rounding id"
  by (simp add: float_rounding_def mono_def)

theorem progress_monotone_final_100_witness:
  "float_rounding id \<and> (0 :: 64 word) <s 10 \<and> int (stream_bytes two_chunks) = sint (10 :: 64 word)
   \<and> length two_chunks \<le> 3
   \<and> sorted (snd (read_n id 3 (recording_tap two_chunks 10) []))
   \<and> last (snd (read_n id 3 (recording_tap two_chunks 10) [])) = 100"
proof -
  have h1: "float_rounding id"
    by (rule float_rounding_id)
  have h2: "(0 :: 64 word) <s 10"
    by (simp add: word_sless_alt)
  have h3: "int (stream_bytes two_chunks) = sint (10 :: 64 word)"
    by (simp add: stream_bytes_def two_chunks_def)
  have h4: "length two_chunks \<le> 3"
    by (simp add: two_chunks_def)
  show ?thesis
    using h1 h2 h3 h4 progress_monotone_final_100 [OF h1 h2 h3, of 3] by simp
qed

lemma read_n_nonneg:
  assumes fr: "float_rounding fl"
  shows "tap_nowrap pr \<Longrightarrow> \<forall>p\<in>set vs. 0 \<le> p \<Longrightarrow> \<forall>p\<in>set (snd (read_n fl n pr vs)). 0 \<le> p"
proof (induction n arbitrary: pr vs)
  case 0
  then show ?case by simp
next
  case (Suc n)
  let ?k = "length (fst (fst (reader_Read (Reader pr))))"
  let ?pr = "pr\<lparr>Reader := snd (reader_Read (Reader pr)), downloaded := downloaded pr + of_nat ?k\<rparr>"
  let ?v = "progress_of fl (downloaded pr + of_nat ?k) (total pr)"
  have inv: "0 <s total pr" "onProgress pr = (\<lambda>p vs. vs @ [p])" "0 \<le> sint (downloaded pr)"
    "sint (downloaded pr) + int (stream_bytes (Reader pr)) < 2 ^ 63"
    using Suc.prems(1) by (simp_all add: tap_nowrap_def)
  have tpos: "0 < sint (total pr)"
    using inv(1) by (simp add: word_sless_alt)
  have sb: "int ?k + int (stream_bytes (snd (reader_Read (Reader pr)))) = int (stream_bytes (Reader pr))"
    using stream_bytes_Read [of "Reader pr"] by linarith
  have bound: "sint (downloaded pr) + int ?k < 2 ^ 63"
    using inv(4) sb by linarith
  have dl: "sint (downloaded pr + of_nat ?k) = sint (downloaded pr) + int ?k"
    using inv(3) bound by (rule sint_add_of_nat)
  have step: "ProgressReader_Read fl pr vs = (fst (reader_Read (Reader pr)), ?pr, vs @ [?v])"
    using recording_read [OF inv(1) inv(2)] .
  have inv': "tap_nowrap ?pr"
    using inv sb dl by (simp add: tap_nowrap_def)
  have v0: "0 \<le> ?v"
    using dl inv(3) by (intro progress_of_nonneg [OF fr tpos]) simp
  have "\<forall>p\<in>set (vs @ [?v]). 0 \<le> p"
    using Suc.prems(2) v0 by simp
  from Suc.IH [OF inv' this] show ?case
    using step by simp
qed

text \<open>
  Claim C6, as amended. With a positive declared total, every value given to the callback
  is at least 0, for every stream of fewer than \<open>2 ^ 63\<close> bytes, those that deliver more
  than declared included; and it is at most 100 as long as the stream delivers no more
  bytes than declared. The tap does not clamp, and beyond the declared total the value can
  be above 100.
\<close>

theorem progress_within_bounds:
  assumes "float_rounding fl" and "0 <s T" and "int (stream_bytes rs) < 2 ^ 63"
  shows "\<forall>p\<in>set (snd (read_n fl n (recording_tap rs T) [])).
           0 \<le> p \<and> (int (stream_bytes rs) \<le> sint T \<longrightarrow> p \<le> 100)"
proof -
  have tpos: "0 < sint T"
    using assms(2) by (simp add: word_sless_alt)
  have "tap_nowrap (recording_tap rs T)"
    using assms(2,3) by (simp add: tap_nowrap_def recording_tap_def)
  then have low: "\<forall>p\<in>set (snd (read_n fl n (recording_tap rs T) [])). 0 \<le> p"
    by (intro read_n_nonneg [OF assms(1)]) simp_all
  have up: "\<forall>p\<in>set (snd (read_n fl n (recording_tap rs T) [])). p \<le> 100"
    if le: "int (stream_bytes rs) \<le> sint T"
  proof -
    obtain pr' vs' where r: "read_n fl n (recording_tap rs T) [] = (pr', vs')"
      by (cases "read_n fl n (recording_tap rs T) []")
    have inv: "tap_inv (recording_tap rs T)"
      using assms(2) le by (rule tap_inv_recording)
    have facts: "tap_inv pr'" "total pr' = T"
      "\<forall>p\<in>set vs'. 0 \<le> p \<and> p \<le> progress_of fl (downloaded pr') T"
      using read_n_recording [OF assms(1) inv, of "[]" n] r
      by (simp_all add: recording_tap_def)
    have "sint (downloaded pr') \<le> sint T"
      using facts(1,2) by (simp add: tap_inv_def)
    then have "progress_of fl (downloaded pr') T \<le> 100"
      using progress_of_mono [OF assms(1) tpos, of "downloaded pr'" T]
        progress_of_full [OF assms(1) tpos] by simp
    then show ?thesis
      using r facts(3) by fastforce
  qed
  show ?thesis
    using low up by blast
qed

theorem progress_within_bounds_witness:
  "float_rounding id \<and> (0 :: 64 word) <s 10
   \<and> int (stream_bytes two_chunks) < 2 ^ 63 \<and> int (stream_bytes two_chunks) \<le> sint (10 :: 64 word)
   \<and> list_all (\<lambda>p. 0 \<le> p \<and> p \<le> 100) (snd (read_n id 2 (recording_tap two_chunks 10) []))
   \<and> int (stream_bytes twenty_bytes) < 2 ^ 63
   \<and> list_all (\<lambda>p. 0 \<le> p) (snd (read_n id 2 (recording_tap twenty_bytes 10) []))"
proof -
  have h1: "float_rounding id"
    by (rule float_rounding_id)
  have h2: "(0 :: 64 word) <s 10"
    by (simp add: word_sless_alt)
  have h3: "int (stream_bytes two_chunks) < 2 ^ 63"
    and h4: "int (stream_bytes two_chunks) \<le> sint (10 :: 64 word)"
    by (simp_all add: stream_bytes_def two_chunks_def)
  have h5: "int (stream_bytes twenty_bytes) < 2 ^ 63"
    by (simp add: stream_bytes_def twenty_bytes_def)
  show ?thesis
    using h1 h2 h3 h4 h5 progress_within_bounds [OF h1 h2 h3, of 2]
      progress_within_bounds [OF h1 h2 h5, of 2]
    by (simp add: list_all_iff)
qed

text \<open>
  Claim C6 as the spec states it fails: with a declared total of 10 bytes, one read of 20
  bytes gives the callback 200.
\<close>

theorem progress_overshoot_counterexample:
  "snd (read_n id 1 (recording_tap twenty_bytes 10) []) = [200]"
  by (simp add: recording_tap_def twenty_bytes_def ProgressReader_Read_def progress_of_def
        float64_def word_sless_alt)

lemma Read_total: "total (fst (snd (ProgressReader_Read fl pr w))) = total pr"
  by (simp add: ProgressReader_Read_def Let_def split: prod.splits)

lemma Read_silent:
  "total pr \<le>s 0 \<Longrightarrow> snd (snd (ProgressReader_Read fl pr w)) = w"
  by (simp add: ProgressReader_Read_def Let_def word_sless_alt word_sle_eq split: prod.splits)

lemma read_n_silent: "total pr \<le>s 0 \<Longrightarrow> snd (read_n fl n pr w) = w"
proof (induction n arbitrary: pr w)
  case 0
  then show ?case by simp
next
  case (Suc n)
  obtain res pr' w' where r: "ProgressReader_Read fl pr w = (res, pr', w')"
    by (cases "ProgressReader_Read fl pr w")
  have "w' = w"
    using Read_silent [OF Suc.prems, of fl w] r by simp
  moreover have "total pr' \<le>s 0"
    using Read_total [of fl pr w] r Suc.prems by simp
  ultimately show ?case
    using Suc.IH [of pr' w] r by simp
qed

text \<open>
  Claim C7. When the declared total is zero or negative, a read through the tap leaves the
  state the callback acts on as it was, whatever the callback is, and so does any number of
  reads: the callback is never called.
\<close>

theorem no_callback_without_total:
  assumes "total pr \<le>s 0"
  shows "snd (snd (ProgressReader_Read fl pr w)) = w \<and> snd (read_n fl n pr w) = w"
  using assms by (simp add: Read_silent read_n_silent)

theorem no_callback_without_total_witness:
  "total counting_tap \<le>s 0 \<and> snd (snd (ProgressReader_Read id counting_tap 0)) = 0
   \<and> snd (read_n id 3 counting_tap 0) = 0"
proof -
  have h: "total counting_tap \<le>s 0"
    by (simp add: counting_tap_def word_sle_eq)
  show ?thesis
    using h no_callback_without_total [OF h, of id 0 3] by simp
qed

text \<open>
  Claim C8. A read through the tap returns what the underlying read returns, bytes and error
  alike, end of stream included, whatever the callback is; it leaves the underlying stream
  where the underlying read leaves it, and of the tap it changes \<^verbatim>\<open>downloaded\<close> only, by
  the number of bytes read.
\<close>

theorem tap_is_pass_through:
  "fst (ProgressReader_Read fl pr w) = fst (reader_Read (Reader pr))
   \<and> Reader (fst (snd (ProgressReader_Read fl pr w))) = snd (reader_Read (Reader pr))
   \<and> downloaded (fst (snd (ProgressReader_Read fl pr w)))
       = downloaded pr + of_nat (length (fst (fst (reader_Read (Reader pr)))))
   \<and> total (fst (snd (ProgressReader_Read fl pr w))) = total pr
   \<and> onProgress (fst (snd (ProgressReader_Read fl pr w))) = onProgress pr"
  by (simp add: ProgressReader_Read_def Let_def split: prod.splits)

theorem tap_is_pass_through_witness:
  "fst (ProgressReader_Read id (recording_tap failing_stream 10) []) = ([1, 2, 3], Some (IOError 7))
   \<and> fst (ProgressReader_Read id (recording_tap [] 10) []) = ([], Some EOF)"
  using tap_is_pass_through [of id "recording_tap failing_stream 10" "[]"]
    tap_is_pass_through [of id "recording_tap [] 10" "[]"]
  by (simp add: recording_tap_def failing_stream_def)

subsection \<open>Facts about the single operations\<close>

lemma emit_fields [simp]:
  "trace (emit x w) = trace w @ [x]" "ticks (emit x w) = ticks w" "edits (emit x w) = edits w"
  "writes (emit x w) = writes w" "staged (emit x w) = staged w" "lastUpdate (emit x w) = lastUpdate w"
  by (simp_all add: emit_def)

lemma updateMessage_fields [simp]:
  "trace (updateMessage e m t w) = trace w @ [EditMessage m t]"
  "ticks (updateMessage e m t w) = ticks w"
  "edits (updateMessage e m t w) = Suc (edits w)"
  "writes (updateMessage e m t w) = writes w"
  "staged (updateMessage e m t w) = staged w"
  "lastUpdate (updateMessage e m t w) = lastUpdate w"
  by (simp_all add: updateMessage_def bot_Send_edit_def)

lemma sendErrorMessage_emit [simp]: "sendErrorMessage e t w = emit (SendMessage t) w"
  by (simp add: sendErrorMessage_def bot_Send_message_def)

lemma report_error_fields [simp]:
  "trace (report_error v e m t w) = trace w @ [report_event v m t]"
  "ticks (report_error v e m t w) = ticks w"
  "writes (report_error v e m t w) = writes w"
  "staged (report_error v e m t w) = staged w"
  "lastUpdate (report_error v e m t w) = lastUpdate w"
  by (cases v; simp add: report_error_def report_event_def)+

lemma os_Remove_fields [simp]:
  "trace (os_Remove w) = trace w @ [OsRemove]" "staged (os_Remove w) = False"
  "ticks (os_Remove w) = ticks w" "lastUpdate (os_Remove w) = lastUpdate w"
  by (simp_all add: os_Remove_def)

lemma onProgress_closure_fields:
  "trace (onProgress_closure e m p w) =
     (if 2 * second \<le> clk e (ticks w) - lastUpdate w
      then trace w @ [EditMessage m (Downloading p)] else trace w)"
  "staged (onProgress_closure e m p w) = staged w"
  "writes (onProgress_closure e m p w) = writes w"
  "ticks (onProgress_closure e m p w) =
     (if 2 * second \<le> clk e (ticks w) - lastUpdate w then Suc (Suc (ticks w)) else Suc (ticks w))"
  "lastUpdate (onProgress_closure e m p w) =
     (if 2 * second \<le> clk e (ticks w) - lastUpdate w then clk e (Suc (ticks w)) else lastUpdate w)"
  by (simp_all add: onProgress_closure_def time_Now_def)

subsection \<open>The copy loop\<close>

text \<open>What one turn of the copy loop adds to the trace.\<close>

lemma copy_iter_trace:
  assumes "copy_iter fl e pr w = (r, pr', w')" and "onProgress pr = onProgress_closure e m"
  shows "onProgress pr' = onProgress_closure e m \<and> staged w' = staged w
     \<and> (\<exists>xs. trace w' = trace w @ xs \<and> (\<forall>x\<in>set xs. copy_event m x))"
  using assms
  by (auto simp: copy_iter_def ProgressReader_Read_def file_Write_def Let_def
        onProgress_closure_fields split: prod.splits option.splits if_splits)

lemma io_Copy_trace:
  "onProgress pr = onProgress_closure e m \<Longrightarrow> io_Copy fl e pr w = (err, pr', w') \<Longrightarrow>
     staged w' = staged w \<and> (\<exists>xs. trace w' = trace w @ xs \<and> (\<forall>x\<in>set xs. copy_event m x))"
proof (induction fl e pr w rule: io_Copy.induct)
  case (1 fl e pr w)
  obtain r pr1 w1 where it: "copy_iter fl e pr w = (r, pr1, w1)"
    by (cases "copy_iter fl e pr w")
  from copy_iter_trace [OF it "1.prems"(1)] obtain xs where
    step: "onProgress pr1 = onProgress_closure e m" "staged w1 = staged w"
      "trace w1 = trace w @ xs" "\<forall>x\<in>set xs. copy_event m x"
    by blast
  show ?case
  proof (cases r)
    case None
    then have "io_Copy fl e pr1 w1 = (err, pr', w')"
      using "1.prems"(2) it by (subst (asm) io_Copy.simps) simp
    from "1.IH" [OF it [symmetric] None refl step(1) this] obtain ys where
      "staged w' = staged w1" "trace w' = trace w1 @ ys" "\<forall>x\<in>set ys. copy_event m x"
      by auto
    then show ?thesis
      using step by (auto intro!: exI [of _ "xs @ ys"])
  next
    case (Some a)
    then have "w' = w1"
      using "1.prems"(2) it by (subst (asm) io_Copy.simps) simp
    then show ?thesis
      using step by auto
  qed
qed

text \<open>The loop, one turn at a time, for evaluating it on a given stream.\<close>

lemma io_Copy_stop:
  "fst (copy_iter fl e pr w) \<noteq> None \<Longrightarrow>
     io_Copy fl e pr w = (the (fst (copy_iter fl e pr w)), snd (copy_iter fl e pr w))"
  by (subst io_Copy.simps) (auto split: prod.splits option.splits)

lemma io_Copy_go:
  "fst (copy_iter fl e pr w) = None \<Longrightarrow>
     io_Copy fl e pr w =
       io_Copy fl e (fst (snd (copy_iter fl e pr w))) (snd (snd (copy_iter fl e pr w)))"
  by (subst io_Copy.simps) (auto split: prod.splits option.splits)

lemmas run_defs =
  handleURL_def handleURL_staged_def bot_Send_message_def world0_def size_check_enabled_def
  MAX_TELEGRAM_FILE_SIZE_def time_Now_def io_Copy_stop io_Copy_go copy_iter_def
  ProgressReader_Read_def file_Write_def onProgress_closure_def second_def progress_of_def
  float64_def sizeMB_def word_sless_alt word_sle_eq emit_def updateMessage_def bot_Send_edit_def
  os_Remove_def report_error_def

lemmas env_defs = env_ok_def env_big_def env_noprobe_def env_nostatus_def two_chunks_def

subsection \<open>The shape of a run\<close>

lemma handleURL_staged_unfold:
  "handleURL_staged v fl e m n body w =
     (case io_Copy fl e
             \<lparr>Reader = body, total = n, downloaded = 0, onProgress = onProgress_closure e m\<rparr>
             ((snd (time_Now e w))\<lparr>lastUpdate := fst (time_Now e w)\<rparr>) of
        (err, pr', w3) \<Rightarrow>
          (case err of
             Some x \<Rightarrow> report_error v e m FailedSave w3
           | None \<Rightarrow>
               if \<not> upload_ok e
               then report_error v e m FailedSend
                      (emit SendDocument (emit FileSeek (updateMessage e m Uploading w3)))
               else updateMessage e m SentOK
                      (emit SendDocument (emit FileSeek (updateMessage e m Uploading w3)))))"
  by (simp add: handleURL_staged_def split: prod.splits)

lemma handleURL_staged_shape:
  "staged (handleURL_staged v fl e m n body w) = staged w
   \<and> (\<exists>xs ys. (\<forall>x\<in>set xs. copy_event m x) \<and> ys \<in> set (closing_events v m)
          \<and> trace (handleURL_staged v fl e m n body w) = trace w @ xs @ ys)"
proof -
  let ?pr = "\<lparr>Reader = body, total = n, downloaded = 0, onProgress = onProgress_closure e m\<rparr>"
  let ?w = "(snd (time_Now e w))\<lparr>lastUpdate := fst (time_Now e w)\<rparr>"
  obtain err pr' w3 where c: "io_Copy fl e ?pr ?w = (err, pr', w3)"
    by (cases "io_Copy fl e ?pr ?w")
  have "onProgress ?pr = onProgress_closure e m"
    by simp
  from io_Copy_trace [OF this c] obtain xs where
    xs: "staged w3 = staged w" "trace w3 = trace w @ xs" "\<forall>x\<in>set xs. copy_event m x"
    by (auto simp: time_Now_def)
  have "staged (handleURL_staged v fl e m n body w) = staged w"
    using c xs(1) by (cases err) (simp_all add: handleURL_staged_unfold)
  moreover have "\<exists>ys. ys \<in> set (closing_events v m)
      \<and> trace (handleURL_staged v fl e m n body w) = trace w @ xs @ ys"
    using c xs(2)
    by (cases err; cases "upload_ok e")
       (simp_all add: handleURL_staged_unfold closing_events_def)
  ultimately show ?thesis
    using xs(3) by blast
qed

lemma handleURL_shape:
  "run_shape v e (trace (handleURL v fl e)) \<and> \<not> staged (handleURL v fl e)"
proof (cases "status_ok e")
  case False
  then show ?thesis
    by (simp add: handleURL_def bot_Send_message_def world0_def run_shape_def)
next
  case ok: True
  show ?thesis
  proof (cases "head_result e")
    case None
    then show ?thesis
      using ok by (simp add: handleURL_def bot_Send_message_def world0_def run_shape_def)
  next
    case (Some n)
    show ?thesis
    proof (cases "size_check_enabled v \<and> MAX_TELEGRAM_FILE_SIZE v <s n")
      case True
      then have "v = Part000"
        by (cases v) (simp_all add: size_check_enabled_def)
      then show ?thesis
        using ok Some True
        by (simp add: handleURL_def bot_Send_message_def world0_def run_shape_def)
    next
      case False
      then have gate: "(if size_check_enabled v \<and> MAX_TELEGRAM_FILE_SIZE v <s n then a else b) = b"
        for a b :: world
        by auto
      show ?thesis
      proof (cases "get_result e")
        case None
        then show ?thesis
          using ok Some gate
          by (simp add: handleURL_def bot_Send_message_def world0_def run_shape_def)
      next
        case body: (Some body)
        show ?thesis
        proof (cases "temp_ok e")
          case False
          then show ?thesis
            using ok Some gate body
            by (simp add: handleURL_def bot_Send_message_def world0_def run_shape_def)
        next
          case True
          let ?w = "(emit CreateTemp (emit HttpGet (emit HttpHead (emit (SendMessage Starting) world0))))
                      \<lparr>staged := True\<rparr>"
          from handleURL_staged_shape [of v fl e "status_id e" n body ?w] obtain xs ys where
            "staged (handleURL_staged v fl e (status_id e) n body ?w) = staged ?w"
            "\<forall>x\<in>set xs. copy_event (status_id e) x" "ys \<in> set (closing_events v (status_id e))"
            "trace (handleURL_staged v fl e (status_id e) n body ?w) = trace ?w @ xs @ ys"
            by blast
          then show ?thesis
            using ok Some gate body True
            by (auto simp: handleURL_def bot_Send_message_def world0_def run_shape_def)
        qed
      qed
    qed
  qed
qed

lemma copy_event_facts:
  "copy_event m x \<Longrightarrow> x \<noteq> OsRemove \<and> x \<noteq> CreateTemp \<and> \<not> is_send x
     \<and> (\<forall>m' t. x = EditMessage m' t \<longrightarrow> m' = m \<and> \<not> is_failure_text t)"
  by (induction m x rule: copy_event.induct) simp_all

lemma copy_events_count:
  "\<forall>x\<in>set xs. copy_event m x \<Longrightarrow> count_list xs OsRemove = 0 \<and> filter is_send xs = []
     \<and> (\<forall>m' t. EditMessage m' t \<in> set xs \<longrightarrow> m' = m \<and> \<not> is_failure_text t)"
  by (induction xs) (auto dest: copy_event_facts)

lemma closing_events_count:
  "ys \<in> set (closing_events v m) \<Longrightarrow> count_list ys OsRemove = 0"
  by (cases v) (auto simp: closing_events_def report_event_def)


subsection \<open>The progress closure over a sequence of calls\<close>

lemma fire_times_lower:
  assumes "mono (clk e)"
  shows "\<forall>t\<in>set (fire_times e m w ps). lastUpdate w + 2 * second \<le> t"
proof (induction ps arbitrary: w)
  case Nil
  then show ?case by simp
next
  case (Cons p ps)
  let ?w = "onProgress_closure e m p w"
  have rest: "\<forall>t\<in>set (fire_times e m ?w ps). lastUpdate ?w + 2 * second \<le> t"
    by (rule Cons.IH)
  show ?case
  proof (cases "2 * second \<le> clk e (ticks w) - lastUpdate w")
    case True
    have "clk e (ticks w) \<le> clk e (Suc (ticks w))"
      using assms by (simp add: mono_def)
    then show ?thesis
      using True rest by (auto simp: onProgress_closure_fields second_def)
  next
    case False
    then show ?thesis
      using rest by (simp add: onProgress_closure_fields)
  qed
qed

lemma fire_times_spaced:
  assumes "mono (clk e)"
  shows "sorted_wrt (\<lambda>s t. s + 2 * second \<le> t) (fire_times e m w ps)"
proof (induction ps arbitrary: w)
  case Nil
  then show ?case by simp
next
  case (Cons p ps)
  let ?w = "onProgress_closure e m p w"
  show ?case
  proof (cases "2 * second \<le> clk e (ticks w) - lastUpdate w")
    case True
    have "clk e (ticks w) \<le> clk e (Suc (ticks w))"
      using assms by (simp add: mono_def)
    then have "\<forall>t\<in>set (fire_times e m ?w ps). clk e (ticks w) + 2 * second \<le> t"
      using fire_times_lower [OF assms, of m ?w ps] True
      by (auto simp: onProgress_closure_fields)
    then show ?thesis
      using True Cons.IH [of ?w] by (simp add: onProgress_closure_fields)
  next
    case False
    then show ?thesis
      using Cons.IH [of ?w] by (simp add: onProgress_closure_fields)
  qed
qed

lemma spaced_window:
  fixes d :: int
  assumes "sorted_wrt (\<lambda>s t. s + d \<le> t) ts" and "b - a < d"
  shows "length (filter (\<lambda>t. a \<le> t \<and> t \<le> b) ts) \<le> 1"
  using assms(1)
proof (induction ts)
  case Nil
  then show ?case by simp
next
  case (Cons x xs)
  show ?case
  proof (cases "a \<le> x \<and> x \<le> b")
    case True
    have "\<forall>t\<in>set xs. \<not> (a \<le> t \<and> t \<le> b)"
      using Cons.prems True assms(2) by auto
    then have "filter (\<lambda>t. a \<le> t \<and> t \<le> b) xs = []"
      by (simp add: filter_empty_conv)
    then show ?thesis
      using True by simp
  next
    case False
    then have "filter (\<lambda>t. a \<le> t \<and> t \<le> b) (x # xs) = filter (\<lambda>t. a \<le> t \<and> t \<le> b) xs"
      by simp
    moreover have "sorted_wrt (\<lambda>s t. s + d \<le> t) xs"
      using Cons.prems by simp
    ultimately show ?thesis
      using Cons.IH by simp
  qed
qed

subsection \<open>The result of an edit reaches nothing\<close>

lemma updateMessage_edit_ok [simp]: "updateMessage (e\<lparr>edit_ok := f\<rparr>) = updateMessage e"
  by (intro ext) (simp add: updateMessage_def bot_Send_edit_def)

lemma report_error_edit_ok [simp]: "report_error v (e\<lparr>edit_ok := f\<rparr>) = report_error v e"
  by (cases v) (simp_all add: report_error_def fun_eq_iff)

lemma onProgress_closure_edit_ok [simp]:
  "onProgress_closure (e\<lparr>edit_ok := f\<rparr>) = onProgress_closure e"
  by (intro ext) (simp add: onProgress_closure_def time_Now_def)

lemma file_Write_edit_ok [simp]: "file_Write (e\<lparr>edit_ok := f\<rparr>) = file_Write e"
  by (intro ext) (simp add: file_Write_def)

lemma copy_iter_edit_ok [simp]: "copy_iter fl (e\<lparr>edit_ok := f\<rparr>) = copy_iter fl e"
  by (intro ext) (simp add: copy_iter_def split_def cong: option.case_cong if_cong)

lemma io_Copy_edit_ok: "io_Copy fl (e\<lparr>edit_ok := f\<rparr>) pr w = io_Copy fl e pr w"
proof (induction fl e pr w rule: io_Copy.induct)
  case (1 fl e pr w)
  obtain r pr1 w1 where it: "copy_iter fl e pr w = (r, pr1, w1)"
    by (cases "copy_iter fl e pr w")
  have unfold: "io_Copy fl e' pr w =
      (case r of Some err \<Rightarrow> (err, pr1, w1) | None \<Rightarrow> io_Copy fl e' pr1 w1)"
    if "copy_iter fl e' = copy_iter fl e" for e'
    by (subst io_Copy.simps) (simp add: that it split: option.splits)
  show ?case
  proof (cases r)
    case None
    then show ?thesis
      using "1.IH" [OF it [symmetric] None refl] unfold [of e] unfold [of "e\<lparr>edit_ok := f\<rparr>"]
      by simp
  next
    case (Some a)
    then show ?thesis
      using unfold [of e] unfold [of "e\<lparr>edit_ok := f\<rparr>"] by simp
  qed
qed

lemma handleURL_staged_edit_ok:
  "handleURL_staged v fl (e\<lparr>edit_ok := f\<rparr>) m n body w = handleURL_staged v fl e m n body w"
  by (simp add: handleURL_staged_unfold io_Copy_edit_ok time_Now_def split_def
        cong: option.case_cong)

subsection \<open>The throttle inside a run\<close>

lemma view_onProgress:
  "throttle_view w = throttle_view w' \<Longrightarrow>
     throttle_view (onProgress_closure e m p w) = throttle_view (onProgress_closure e m p w')"
  by (simp add: throttle_view_def onProgress_closure_fields)

lemma view_closure_run:
  "throttle_view w = throttle_view w' \<Longrightarrow>
     throttle_view (closure_run e m w ps) = throttle_view (closure_run e m w' ps)"
proof (induction ps arbitrary: w w')
  case Nil
  then show ?case by (simp add: closure_run_def)
next
  case (Cons p ps)
  have "throttle_view (onProgress_closure e m p w) = throttle_view (onProgress_closure e m p w')"
    using Cons.prems by (rule view_onProgress)
  then have "throttle_view (closure_run e m (onProgress_closure e m p w) ps)
      = throttle_view (closure_run e m (onProgress_closure e m p w') ps)"
    by (rule Cons.IH)
  then show ?case by (simp add: closure_run_def)
qed

lemma closure_run_append:
  "closure_run e m w (ps @ qs) = closure_run e m (closure_run e m w ps) qs"
  by (simp add: closure_run_def)

lemma view_emit:
  "\<not> is_progress_edit x \<Longrightarrow> throttle_view (emit x w) = throttle_view w"
  by (simp add: throttle_view_def)

lemma view_updateMessage:
  "\<not> is_progress_edit (EditMessage m t) \<Longrightarrow> throttle_view (updateMessage e m t w) = throttle_view w"
  by (simp add: throttle_view_def)

lemma view_report_error:
  "is_failure_text t \<Longrightarrow> throttle_view (report_error v e m t w) = throttle_view w"
  by (cases v; cases t) (simp_all add: throttle_view_def report_event_def)

lemma view_file_Write: "throttle_view (snd (file_Write e bs w)) = throttle_view w"
  by (simp add: file_Write_def throttle_view_def)

lemma copy_iter_view:
  assumes "copy_iter fl e pr w = (r, pr', w')" and "onProgress pr = onProgress_closure e m"
  shows "onProgress pr' = onProgress_closure e m
     \<and> (\<exists>ps. throttle_view w' = throttle_view (closure_run e m w ps))"
proof -
  obtain res pr1 w1 where rd: "ProgressReader_Read fl pr w = (res, pr1, w1)"
    by (cases "ProgressReader_Read fl pr w")
  have pr1: "onProgress pr1 = onProgress_closure e m"
    using rd assms(2) by (auto simp: ProgressReader_Read_def Let_def split: prod.splits if_splits)
  have "w1 = w \<or> (\<exists>p. w1 = onProgress_closure e m p w)"
    using rd assms(2) by (auto simp: ProgressReader_Read_def Let_def split: prod.splits if_splits)
  then have "\<exists>ps. w1 = closure_run e m w ps"
  proof
    assume "w1 = w"
    then have "w1 = closure_run e m w []" by (simp add: closure_run_def)
    then show ?thesis ..
  next
    assume "\<exists>p. w1 = onProgress_closure e m p w"
    then obtain p where "w1 = closure_run e m w [p]" by (auto simp: closure_run_def)
    then show ?thesis ..
  qed
  then obtain ps where ps: "w1 = closure_run e m w ps" ..
  have "pr' = pr1 \<and> throttle_view w' = throttle_view w1"
    using assms(1) rd
    by (auto simp: copy_iter_def file_Write_def throttle_view_def
          split: prod.splits option.splits if_splits)
  then show ?thesis
    using pr1 ps by auto
qed

lemma io_Copy_view:
  "onProgress pr = onProgress_closure e m \<Longrightarrow> io_Copy fl e pr w = (err, pr', w') \<Longrightarrow>
     \<exists>ps. throttle_view w' = throttle_view (closure_run e m w ps)"
proof (induction fl e pr w rule: io_Copy.induct)
  case (1 fl e pr w)
  obtain r pr1 w1 where it: "copy_iter fl e pr w = (r, pr1, w1)"
    by (cases "copy_iter fl e pr w")
  from copy_iter_view [OF it "1.prems"(1)] obtain ps where
    step: "onProgress pr1 = onProgress_closure e m"
      "throttle_view w1 = throttle_view (closure_run e m w ps)"
    by blast
  show ?case
  proof (cases r)
    case None
    then have "io_Copy fl e pr1 w1 = (err, pr', w')"
      using "1.prems"(2) it by (subst (asm) io_Copy.simps) simp
    from "1.IH" [OF it [symmetric] None refl step(1) this] obtain qs where
      "throttle_view w' = throttle_view (closure_run e m w1 qs)"
      by auto
    then have "throttle_view w' = throttle_view (closure_run e m w (ps @ qs))"
      using view_closure_run [OF step(2), of e m qs] by (simp add: closure_run_append)
    then show ?thesis ..
  next
    case (Some a)
    then have "w' = w1"
      using "1.prems"(2) it by (subst (asm) io_Copy.simps) simp
    then show ?thesis
      using step(2) by auto
  qed
qed

lemma handleURL_staged_copy_result:
  "handleURL_staged v fl e m n body w =
     (case copy_result fl e m n body w of
        (err, pr', w3) \<Rightarrow>
          (case err of
             Some x \<Rightarrow> report_error v e m FailedSave w3
           | None \<Rightarrow>
               if \<not> upload_ok e
               then report_error v e m FailedSend
                      (emit SendDocument (emit FileSeek (updateMessage e m Uploading w3)))
               else updateMessage e m SentOK
                      (emit SendDocument (emit FileSeek (updateMessage e m Uploading w3)))))"
  by (simp add: handleURL_staged_unfold copy_result_def time_Now_def)

lemma handleURL_staged_completion:
  "throttle_view (handleURL_staged v fl e m n body w)
     = throttle_view (snd (snd (copy_result fl e m n body w)))"
  "fst (copy_result fl e m n body w) = None \<Longrightarrow>
     trace (handleURL_staged v fl e m n body w)
       = trace (snd (snd (copy_result fl e m n body w)))
         @ [EditMessage m Uploading, FileSeek, SendDocument,
            if upload_ok e then EditMessage m SentOK else report_event v m FailedSend]"
  "fst (copy_result fl e m n body w) \<noteq> None \<Longrightarrow>
     trace (handleURL_staged v fl e m n body w)
       = trace (snd (snd (copy_result fl e m n body w))) @ [report_event v m FailedSave]"
  by (cases "copy_result fl e m n body w"; cases "fst (copy_result fl e m n body w)";
      simp add: handleURL_staged_copy_result view_emit view_updateMessage view_report_error)+

lemma handleURL_staged_view:
  "\<exists>ps. throttle_view (handleURL_staged v fl e m n body w)
     = throttle_view (closure_run e m (w\<lparr>ticks := Suc (ticks w), lastUpdate := clk e (ticks w)\<rparr>) ps)"
proof -
  obtain err pr' w3 where c: "copy_result fl e m n body w = (err, pr', w3)"
    by (cases "copy_result fl e m n body w")
  then have "\<exists>ps. throttle_view w3
      = throttle_view (closure_run e m (w\<lparr>ticks := Suc (ticks w), lastUpdate := clk e (ticks w)\<rparr>) ps)"
    unfolding copy_result_def by (intro io_Copy_view [of _ e m fl _ err pr']) simp_all
  then show ?thesis
    using handleURL_staged_completion(1) [of v fl e m n body w] c by simp
qed

lemma staging_world_eq:
  "(emit CreateTemp (emit HttpGet (emit HttpHead (emit (SendMessage Starting) world0))))
     \<lparr>staged := True\<rparr> = staging_world"
  by (simp add: emit_def world0_def staging_world_def)

lemma handleURL_reaches:
  assumes "reaches_copy v e n body"
  shows "handleURL v fl e
     = emit BodyClose (os_Remove (emit FileClose
         (handleURL_staged v fl e (status_id e) n body staging_world)))"
proof -
  have gate: "(if size_check_enabled v \<and> MAX_TELEGRAM_FILE_SIZE v <s n then a else b) = b"
    for a b :: world
    using assms by (auto simp: reaches_copy_def)
  show ?thesis
    using assms gate
    by (simp add: reaches_copy_def handleURL_def bot_Send_message_def staging_world_eq)
qed

lemma view_os_Remove: "throttle_view (os_Remove w) = throttle_view w"
  by (simp add: throttle_view_def)

lemma handleURL_view:
  "reaches_copy v e n body \<Longrightarrow>
     throttle_view (handleURL v fl e)
       = throttle_view (handleURL_staged v fl e (status_id e) n body staging_world)"
  by (simp add: handleURL_reaches view_emit view_os_Remove)

lemma handleURL_no_copy_view:
  assumes "\<forall>n body. \<not> reaches_copy v e n body"
  shows "throttle_view (handleURL v fl e) = (0, 0, [])"
proof (cases "status_ok e")
  case False
  then show ?thesis
    by (simp add: handleURL_def bot_Send_message_def world0_def throttle_view_def)
next
  case ok: True
  show ?thesis
  proof (cases "head_result e")
    case None
    then show ?thesis
      using ok
      by (simp add: handleURL_def bot_Send_message_def world0_def view_report_error view_emit)
         (simp add: throttle_view_def)
  next
    case (Some n)
    show ?thesis
    proof (cases "size_check_enabled v \<and> MAX_TELEGRAM_FILE_SIZE v <s n")
      case True
      then show ?thesis
        using ok Some
        by (simp add: handleURL_def bot_Send_message_def world0_def throttle_view_def)
    next
      case False
      then have gate: "(if size_check_enabled v \<and> MAX_TELEGRAM_FILE_SIZE v <s n then a else b) = b"
        for a b :: world
        by auto
      show ?thesis
      proof (cases "get_result e")
        case None
        then show ?thesis
          using ok Some gate
          by (simp add: handleURL_def bot_Send_message_def world0_def view_report_error view_emit)
             (simp add: throttle_view_def)
      next
        case body: (Some body)
        have "\<not> temp_ok e"
          using assms ok Some False body by (auto simp: reaches_copy_def)
        then show ?thesis
          using ok Some gate body
          by (simp add: handleURL_def bot_Send_message_def world0_def view_report_error view_emit)
             (simp add: throttle_view_def)
      qed
    qed
  qed
qed

lemma copy_iter_silent:
  assumes "copy_iter fl e pr w = (r, pr', w')" and "total pr \<le>s 0"
  shows "total pr' \<le>s 0 \<and> throttle_view w' = throttle_view w"
proof -
  obtain res pr1 w1 where rd: "ProgressReader_Read fl pr w = (res, pr1, w1)"
    by (cases "ProgressReader_Read fl pr w")
  have "w1 = w"
    using Read_silent [OF assms(2), of fl w] rd by simp
  moreover have "total pr1 \<le>s 0"
    using Read_total [of fl pr w] rd assms(2) by simp
  moreover have "pr' = pr1 \<and> throttle_view w' = throttle_view w1"
    using assms(1) rd
    by (auto simp: copy_iter_def file_Write_def throttle_view_def
          split: prod.splits option.splits if_splits)
  ultimately show ?thesis
    by simp
qed

lemma io_Copy_silent:
  "total pr \<le>s 0 \<Longrightarrow> io_Copy fl e pr w = (err, pr', w') \<Longrightarrow> throttle_view w' = throttle_view w"
proof (induction fl e pr w rule: io_Copy.induct)
  case (1 fl e pr w)
  obtain r pr1 w1 where it: "copy_iter fl e pr w = (r, pr1, w1)"
    by (cases "copy_iter fl e pr w")
  have step: "total pr1 \<le>s 0" "throttle_view w1 = throttle_view w"
    using copy_iter_silent [OF it "1.prems"(1)] by simp_all
  show ?case
  proof (cases r)
    case None
    then have "io_Copy fl e pr1 w1 = (err, pr', w')"
      using "1.prems"(2) it by (subst (asm) io_Copy.simps) simp
    from "1.IH" [OF it [symmetric] None refl step(1) this] show ?thesis
      using step(2) by simp
  next
    case (Some a)
    then have "w' = w1"
      using "1.prems"(2) it by (subst (asm) io_Copy.simps) simp
    then show ?thesis
      using step(2) by simp
  qed
qed

lemma handleURL_staged_silent:
  assumes "n \<le>s 0"
  shows "throttle_view (handleURL_staged v fl e m n body w)
     = (Suc (ticks w), clk e (ticks w), filter is_progress_edit (trace w))"
proof -
  obtain err pr' w3 where c: "copy_result fl e m n body w = (err, pr', w3)"
    by (cases "copy_result fl e m n body w")
  then have "throttle_view w3
      = throttle_view (w\<lparr>ticks := Suc (ticks w), lastUpdate := clk e (ticks w)\<rparr>)"
    unfolding copy_result_def using assms by (intro io_Copy_silent [of _ fl e _ err pr']) simp_all
  then show ?thesis
    using handleURL_staged_completion(1) [of v fl e m n body w] c
    by (simp add: throttle_view_def)
qed

subsection \<open>The size check\<close>

text \<open>
  Claim C1, as amended. In part_000, where the check is live (ceiling 50 MiB), a probe that
  declares more than the ceiling ends the run after the HEAD request with a newly sent
  "too large" message and no GET; a declared length up to the ceiling, negative lengths
  included, is followed by the GET. In main.go, where the check is a comment, the GET follows
  every successful probe, whatever length it declares.
\<close>

theorem size_gate_by_variant:
  assumes "status_ok e" and "head_result e = Some n"
  shows "(MAX_TELEGRAM_FILE_SIZE Part000 <s n \<longrightarrow>
            trace (handleURL Part000 fl e)
              = [SendMessage Starting, HttpHead, SendMessage (TooLargeMsg (sizeMB fl n))])
       \<and> (n \<le>s MAX_TELEGRAM_FILE_SIZE Part000 \<longrightarrow>
            prefix [SendMessage Starting, HttpHead, HttpGet] (trace (handleURL Part000 fl e)))
       \<and> prefix [SendMessage Starting, HttpHead, HttpGet] (trace (handleURL MainGo fl e))"
proof -
  have passes: "prefix [SendMessage Starting, HttpHead, HttpGet] (trace (handleURL v fl e))"
    if ng: "\<not> (size_check_enabled v \<and> MAX_TELEGRAM_FILE_SIZE v <s n)" for v
  proof -
    have gate: "(if size_check_enabled v \<and> MAX_TELEGRAM_FILE_SIZE v <s n then a else b) = b"
      for a b :: world
      using ng by auto
    show ?thesis
    proof (cases "get_result e")
      case None
      then show ?thesis
        using assms gate by (simp add: handleURL_def bot_Send_message_def world0_def)
    next
      case (Some body)
      show ?thesis
      proof (cases "temp_ok e")
        case False
        then show ?thesis
          using assms gate Some by (simp add: handleURL_def bot_Send_message_def world0_def)
      next
        case True
        let ?w = "(emit CreateTemp (emit HttpGet (emit HttpHead (emit (SendMessage Starting) world0))))
                    \<lparr>staged := True\<rparr>"
        from handleURL_staged_shape [of v fl e "status_id e" n body ?w] obtain zs where
          "trace (handleURL_staged v fl e (status_id e) n body ?w) = trace ?w @ zs"
          by auto
        then show ?thesis
          using assms gate Some True
          by (simp add: handleURL_def bot_Send_message_def world0_def)
      qed
    qed
  qed
  have "trace (handleURL Part000 fl e)
      = [SendMessage Starting, HttpHead, SendMessage (TooLargeMsg (sizeMB fl n))]"
    if "MAX_TELEGRAM_FILE_SIZE Part000 <s n"
    using that assms
    by (simp add: handleURL_def bot_Send_message_def world0_def size_check_enabled_def)
  moreover have "prefix [SendMessage Starting, HttpHead, HttpGet] (trace (handleURL Part000 fl e))"
    if "n \<le>s MAX_TELEGRAM_FILE_SIZE Part000"
    using that by (intro passes) (simp add: word_sless_alt word_sle_eq)
  moreover have "prefix [SendMessage Starting, HttpHead, HttpGet] (trace (handleURL MainGo fl e))"
    by (intro passes) (simp add: size_check_enabled_def)
  ultimately show ?thesis
    by blast
qed

theorem size_gate_by_variant_witness:
  "status_ok env_big \<and> head_result env_big = Some 3000000000
   \<and> MAX_TELEGRAM_FILE_SIZE Part000 <s 3000000000
   \<and> trace (handleURL Part000 id env_big)
       = [SendMessage Starting, HttpHead, SendMessage (TooLargeMsg (sizeMB id 3000000000))]
   \<and> status_ok env_ok \<and> head_result env_ok = Some 10 \<and> 10 \<le>s MAX_TELEGRAM_FILE_SIZE Part000
   \<and> prefix [SendMessage Starting, HttpHead, HttpGet] (trace (handleURL Part000 id env_ok))
   \<and> prefix [SendMessage Starting, HttpHead, HttpGet] (trace (handleURL MainGo id env_big))"
proof -
  have b1: "status_ok env_big" and b2: "head_result env_big = Some 3000000000"
    by (simp_all add: env_defs)
  have b3: "MAX_TELEGRAM_FILE_SIZE Part000 <s 3000000000"
    by (simp add: MAX_TELEGRAM_FILE_SIZE_def word_sless_alt)
  have a1: "status_ok env_ok" and a2: "head_result env_ok = Some 10"
    by (simp_all add: env_defs)
  have a3: "10 \<le>s MAX_TELEGRAM_FILE_SIZE Part000"
    by (simp add: MAX_TELEGRAM_FILE_SIZE_def word_sle_eq)
  show ?thesis
    using b1 b2 b3 a1 a2 a3 size_gate_by_variant [OF b1 b2, where fl = id]
      size_gate_by_variant [OF a1 a2, where fl = id]
    by simp
qed

text \<open>
  Claim C1 as the spec states it fails on main.go: the probe declares 3000000000 bytes, more
  than the 2000 MiB of \<^verbatim>\<open>MAX_TELEGRAM_FILE_SIZE\<close>, and the GET is issued all the same.
\<close>

theorem size_gate_counterexample:
  "head_result env_big = Some 3000000000 \<and> MAX_TELEGRAM_FILE_SIZE MainGo <s 3000000000
   \<and> take 3 (trace (handleURL MainGo id env_big)) = [SendMessage Starting, HttpHead, HttpGet]"
  by (simp add: run_defs env_defs)

subsection \<open>The temporary file\<close>

text \<open>
  Claim C2. The temporary file is acquired when \<^verbatim>\<open>os.CreateTemp\<close> is called and succeeds.
  In every run the file does not exist when \<^verbatim>\<open>handleURL\<close> returns; \<^verbatim>\<open>os.Remove\<close> is called
  exactly once when the file was acquired and not at all otherwise; and when it was
  acquired the run ends with closing the file, removing it and closing the body, so that the
  removal comes after every use of the file, whichever way the run went.
\<close>

theorem staged_file_removed_once:
  "\<not> staged (handleURL v fl e)
   \<and> count_list (trace (handleURL v fl e)) OsRemove
       = (if CreateTemp \<in> set (trace (handleURL v fl e)) \<and> temp_ok e then 1 else 0)
   \<and> (CreateTemp \<in> set (trace (handleURL v fl e)) \<and> temp_ok e
        \<longrightarrow> suffix [FileClose, OsRemove, BodyClose] (trace (handleURL v fl e)))"
proof -
  let ?t = "trace (handleURL v fl e)"
  have sh: "run_shape v e ?t" and st: "\<not> staged (handleURL v fl e)"
    using handleURL_shape [of v e fl] by simp_all
  have "count_list ?t OsRemove = (if CreateTemp \<in> set ?t \<and> temp_ok e then 1 else 0)
      \<and> (CreateTemp \<in> set ?t \<and> temp_ok e \<longrightarrow> suffix [FileClose, OsRemove, BodyClose] ?t)"
    using sh unfolding run_shape_def
  proof (elim disjE conjE exE)
    fix xs ys
    assume ok: "temp_ok e" and xs: "\<forall>x\<in>set xs. copy_event (status_id e) x"
      and ys: "ys \<in> set (closing_events v (status_id e))"
      and t: "?t = [SendMessage Starting, HttpHead, HttpGet, CreateTemp] @ xs @ ys
                @ [FileClose, OsRemove, BodyClose]"
    have "suffix [FileClose, OsRemove, BodyClose] ?t"
      unfolding t suffix_def
      by (rule exI [of _ "[SendMessage Starting, HttpHead, HttpGet, CreateTemp] @ xs @ ys"]) simp
    then show ?thesis
      using ok copy_events_count [OF xs] closing_events_count [OF ys] by (simp add: t)
  qed (cases v; simp add: report_event_def)+
  then show ?thesis
    using st by simp
qed

theorem staged_file_removed_once_witness:
  "CreateTemp \<in> set (trace (handleURL MainGo id env_ok)) \<and> temp_ok env_ok
   \<and> \<not> staged (handleURL MainGo id env_ok)
   \<and> count_list (trace (handleURL MainGo id env_ok)) OsRemove = 1
   \<and> suffix [FileClose, OsRemove, BodyClose] (trace (handleURL MainGo id env_ok))
   \<and> count_list (trace (handleURL MainGo id env_noprobe)) OsRemove = 0"
proof -
  have h: "CreateTemp \<in> set (trace (handleURL MainGo id env_ok))" "temp_ok env_ok"
    by (simp_all add: run_defs env_defs)
  have n: "CreateTemp \<notin> set (trace (handleURL MainGo id env_noprobe))"
    by (simp add: run_defs env_defs)
  show ?thesis
    using h n staged_file_removed_once [where v = MainGo and fl = id and e = env_ok]
      staged_file_removed_once [where v = MainGo and fl = id and e = env_noprobe]
    by simp
qed

subsection \<open>The status message\<close>




subsection \<open>The throttle\<close>

text \<open>
  Claim C5, as amended.

  The closure. A call of the progress closure edits the status message exactly when at
  least two seconds lie between \<^verbatim>\<open>lastUpdate\<close> and the clock reading the call takes; after
  an edit, \<^verbatim>\<open>lastUpdate\<close> is the reading taken when that edit returned. A call that does not
  edit leaves the state as it was but for the clock reading it took, so the value is not
  kept. With a clock that never runs backwards, the readings at which a sequence of calls
  did edit are such that no window shorter than two seconds holds more than one of them.

  The run. \<^verbatim>\<open>handleURL\<close> makes the closure in a state where \<^verbatim>\<open>lastUpdate\<close> holds the clock
  reading just taken, and from there to its return the clock readings, \<^verbatim>\<open>lastUpdate\<close> and
  the edits to a percentage are those of a sequence of calls of the closure and of nothing
  else; when the declared total is not positive there is no call, and \<^verbatim>\<open>lastUpdate\<close> is
  that first reading to the end. There is no flush: when the copy ends without error, the next call is the edit to
  "uploading", made directly by \<^verbatim>\<open>updateMessage\<close> whatever the time, and nothing after the
  copy reads the clock or changes \<^verbatim>\<open>lastUpdate\<close>. A run that does not get to the copy never
  reads the clock.
\<close>

theorem throttle_gate_and_spacing:
  assumes "mono (clk e)"
  shows "trace (onProgress_closure e m p w)
           = (if 2 * second \<le> clk e (ticks w) - lastUpdate w
              then trace w @ [EditMessage m (Downloading p)] else trace w)
       \<and> lastUpdate (onProgress_closure e m p w)
           = (if 2 * second \<le> clk e (ticks w) - lastUpdate w
              then clk e (Suc (ticks w)) else lastUpdate w)
       \<and> (\<not> 2 * second \<le> clk e (ticks w) - lastUpdate w
            \<longrightarrow> onProgress_closure e m p w = w\<lparr>ticks := Suc (ticks w)\<rparr>)
       \<and> (b - a < 2 * second
            \<longrightarrow> length (filter (\<lambda>t. a \<le> t \<and> t \<le> b) (fire_times e m w ps)) \<le> 1)
       \<and> trace (updateMessage e m Uploading w) = trace w @ [EditMessage m Uploading]
       \<and> lastUpdate (updateMessage e m Uploading w) = lastUpdate w
       \<and> ticks (updateMessage e m Uploading w) = ticks w
       \<and> (\<exists>qs. throttle_view (handleURL_staged v fl e m n body w)
                 = throttle_view
                     (closure_run e m (w\<lparr>ticks := Suc (ticks w), lastUpdate := clk e (ticks w)\<rparr>) qs))
       \<and> (n \<le>s 0 \<longrightarrow>
            throttle_view (handleURL_staged v fl e m n body w)
              = (Suc (ticks w), clk e (ticks w), filter is_progress_edit (trace w)))
       \<and> throttle_view (handleURL_staged v fl e m n body w)
           = throttle_view (snd (snd (copy_result fl e m n body w)))
       \<and> (fst (copy_result fl e m n body w) = None \<longrightarrow>
            trace (handleURL_staged v fl e m n body w)
              = trace (snd (snd (copy_result fl e m n body w)))
                @ [EditMessage m Uploading, FileSeek, SendDocument,
                   if upload_ok e then EditMessage m SentOK else report_event v m FailedSend])
       \<and> (reaches_copy v e n body \<longrightarrow>
            throttle_view (handleURL v fl e)
              = throttle_view (handleURL_staged v fl e (status_id e) n body staging_world)
            \<and> (fst (copy_result fl e (status_id e) n body staging_world) = None \<longrightarrow>
                 EditMessage (status_id e) Uploading \<in> set (trace (handleURL v fl e))))
       \<and> ((\<forall>n body. \<not> reaches_copy v e n body) \<longrightarrow>
            throttle_view (handleURL v fl e) = (0, 0, []))"
proof -
  have "length (filter (\<lambda>t. a \<le> t \<and> t \<le> b) (fire_times e m w ps)) \<le> 1"
    if "b - a < 2 * second"
    using fire_times_spaced [OF assms, of m w ps] that by (rule spaced_window)
  moreover have "onProgress_closure e m p w = w\<lparr>ticks := Suc (ticks w)\<rparr>"
    if "\<not> 2 * second \<le> clk e (ticks w) - lastUpdate w"
    using that by (simp add: onProgress_closure_def time_Now_def)
  moreover have "EditMessage (status_id e) Uploading \<in> set (trace (handleURL v fl e))"
    if "reaches_copy v e n body"
      and "fst (copy_result fl e (status_id e) n body staging_world) = None"
    using that handleURL_staged_completion(2) [of fl e "status_id e" n body staging_world v]
    by (simp add: handleURL_reaches)
  moreover have "throttle_view (handleURL v fl e) = (0, 0, [])"
    if "\<forall>n body. \<not> reaches_copy v e n body"
    using that by (rule handleURL_no_copy_view)
  moreover have "throttle_view (handleURL_staged v fl e m n body w)
      = (Suc (ticks w), clk e (ticks w), filter is_progress_edit (trace w))"
    if "n \<le>s 0"
    using that by (rule handleURL_staged_silent)
  moreover note handleURL_staged_view [of v fl e m n body w]
    handleURL_staged_completion(1) [of v fl e m n body w]
    handleURL_staged_completion(2) [of fl e m n body w v]
    handleURL_view [of v e n body fl]
  ultimately show ?thesis
    by (simp add: onProgress_closure_fields)
qed

theorem throttle_gate_and_spacing_witness:
  "mono (clk env_ok)
   \<and> \<not> 2 * second \<le> clk env_ok (ticks world0) - lastUpdate world0
   \<and> onProgress_closure env_ok 42 50 world0 = world0\<lparr>ticks := Suc (ticks world0)\<rparr>
   \<and> 2 * second \<le> clk env_ok (ticks (world0\<lparr>ticks := 1\<rparr>)) - lastUpdate (world0\<lparr>ticks := 1\<rparr>)
   \<and> trace (onProgress_closure env_ok 42 100 (world0\<lparr>ticks := 1\<rparr>))
       = [EditMessage 42 (Downloading 100)]
   \<and> lastUpdate (onProgress_closure env_ok 42 100 (world0\<lparr>ticks := 1\<rparr>)) = clk env_ok 2
   \<and> fire_times env_ok 42 world0 [50, 100, 100, 100] = [3000000000, 9000000000, 15000000000]
   \<and> (4000000000 :: int) - 3000000000 < 2 * second
   \<and> length (filter (\<lambda>t. 3000000000 \<le> t \<and> t \<le> 4000000000)
               (fire_times env_ok 42 world0 [50, 100, 100, 100])) \<le> 1
   \<and> (- 1 :: 64 word) \<le>s 0
   \<and> throttle_view (handleURL_staged MainGo id env_ok 42 (- 1) two_chunks staging_world)
       = (Suc (ticks staging_world), clk env_ok (ticks staging_world),
          filter is_progress_edit (trace staging_world))
   \<and> reaches_copy MainGo env_ok 10 two_chunks \<and> status_id env_ok = 42
   \<and> fst (copy_result id env_ok 42 10 two_chunks staging_world) = None
   \<and> EditMessage 42 Uploading \<in> set (trace (handleURL MainGo id env_ok))
   \<and> throttle_view (handleURL MainGo id env_ok)
       = throttle_view (snd (snd (copy_result id env_ok 42 10 two_chunks staging_world)))
   \<and> (\<forall>n body. \<not> reaches_copy MainGo env_noprobe n body)
   \<and> throttle_view (handleURL MainGo id env_noprobe) = (0, 0, [])"
proof -
  have h1: "mono (clk env_ok)"
    by (simp add: env_defs mono_def second_def)
  have h1': "mono (clk env_noprobe)"
    by (simp add: env_defs mono_def second_def)
  have h2: "\<not> 2 * second \<le> clk env_ok (ticks world0) - lastUpdate world0"
    by (simp add: env_defs world0_def second_def)
  have h3: "2 * second \<le> clk env_ok (ticks (world0\<lparr>ticks := 1\<rparr>)) - lastUpdate (world0\<lparr>ticks := 1\<rparr>)"
    by (simp add: env_defs world0_def second_def)
  have h4: "(4000000000 :: int) - 3000000000 < 2 * second"
    by (simp add: second_def)
  have h5: "reaches_copy MainGo env_ok 10 two_chunks" and h6: "status_id env_ok = 42"
    by (simp_all add: reaches_copy_def size_check_enabled_def env_defs)
  have h7: "fst (copy_result id env_ok 42 10 two_chunks staging_world) = None"
    by (simp add: copy_result_def staging_world_def run_defs env_defs)
  have h8: "\<forall>n body. \<not> reaches_copy MainGo env_noprobe n body"
    by (simp add: reaches_copy_def env_defs)
  have ft: "fire_times env_ok 42 world0 [50, 100, 100, 100]
      = [3000000000, 9000000000, 15000000000]"
    by (simp add: onProgress_closure_fields world0_def env_defs second_def)
  have dropped: "onProgress_closure env_ok 42 50 world0 = world0\<lparr>ticks := Suc (ticks world0)\<rparr>"
    using h2 throttle_gate_and_spacing [OF h1, where m = 42 and p = 50 and w = world0]
    by blast
  have fired: "trace (onProgress_closure env_ok 42 100 (world0\<lparr>ticks := 1\<rparr>))
        = [EditMessage 42 (Downloading 100)]
      \<and> lastUpdate (onProgress_closure env_ok 42 100 (world0\<lparr>ticks := 1\<rparr>)) = clk env_ok 2"
    using h3 throttle_gate_and_spacing
      [OF h1, where m = 42 and p = 100 and w = "world0\<lparr>ticks := 1\<rparr>"]
    by (simp add: world0_def numeral_2_eq_2)
  have window: "length (filter (\<lambda>t. 3000000000 \<le> t \<and> t \<le> 4000000000)
      (fire_times env_ok 42 world0 [50, 100, 100, 100])) \<le> 1"
    using h4 throttle_gate_and_spacing
      [OF h1, where m = 42 and w = world0 and a = 3000000000 and b = 4000000000
        and ps = "[50, 100, 100, 100]"]
    by blast
  have h9: "(- 1 :: 64 word) \<le>s 0"
    by (simp add: word_sle_eq)
  have unknown: "throttle_view (handleURL_staged MainGo id env_ok 42 (- 1) two_chunks staging_world)
      = (Suc (ticks staging_world), clk env_ok (ticks staging_world),
         filter is_progress_edit (trace staging_world))"
    using h9 throttle_gate_and_spacing
      [OF h1, where v = MainGo and fl = id and n = "- 1" and body = two_chunks and m = 42
        and w = staging_world]
    by blast
  have run: "EditMessage 42 Uploading \<in> set (trace (handleURL MainGo id env_ok))
      \<and> throttle_view (handleURL MainGo id env_ok)
          = throttle_view (snd (snd (copy_result id env_ok 42 10 two_chunks staging_world)))"
    using h5 h6 h7 throttle_gate_and_spacing
      [OF h1, where v = MainGo and fl = id and n = 10 and body = two_chunks and m = 42
        and w = staging_world]
    by simp
  have none: "throttle_view (handleURL MainGo id env_noprobe) = (0, 0, [])"
    using h8 throttle_gate_and_spacing [OF h1', where v = MainGo and fl = id]
    by blast
  show ?thesis
    using h1 h2 h3 h4 h5 h6 h7 h8 h9 ft dropped fired window unknown run none by blast
qed

text \<open>
  Claim C5 as the spec states it fails: there is no flush that resets the interval clock. In
  this run the clock is read seven times, once when the closure is made and twice by each of
  the three calls that edit, and \<^verbatim>\<open>lastUpdate\<close> is the last of these readings when the copy
  ends. The edit to "uploading" follows, and at the return the clock has still been read
  seven times and \<^verbatim>\<open>lastUpdate\<close> is still that reading.
\<close>

theorem no_flush_counterexample:
  "trace (handleURL MainGo id env_ok)
     = [SendMessage Starting, HttpHead, HttpGet, CreateTemp,
        EditMessage 42 (Downloading 50), FileWrite [1, 2, 3, 4, 5],
        EditMessage 42 (Downloading 100), FileWrite [6, 7, 8, 9, 10],
        EditMessage 42 (Downloading 100), EditMessage 42 Uploading, FileSeek,
        SendDocument, EditMessage 42 SentOK, FileClose, OsRemove, BodyClose]
   \<and> ticks (snd (snd (copy_result id env_ok 42 10 two_chunks staging_world))) = 7
   \<and> lastUpdate (snd (snd (copy_result id env_ok 42 10 two_chunks staging_world))) = clk env_ok 6
   \<and> ticks (handleURL MainGo id env_ok) = 7
   \<and> lastUpdate (handleURL MainGo id env_ok) = clk env_ok 6"
  by (simp add: copy_result_def staging_world_def run_defs env_defs)

subsection \<open>Failures of the gateway\<close>

text \<open>
  Claim C9. \<^verbatim>\<open>updateMessage\<close> drops the result of the edit it sends: whatever the edits
  answer, the run makes the same calls in the same order and ends in the same state, in both
  variants.
\<close>

theorem edit_failure_swallowed:
  "handleURL v fl (e\<lparr>edit_ok := f\<rparr>) = handleURL v fl e"
  by (simp add: handleURL_def handleURL_staged_edit_ok split_def
        cong: option.case_cong if_cong)

theorem edit_failure_swallowed_witness:
  "handleURL MainGo id (env_ok\<lparr>edit_ok := (\<lambda>k. False)\<rparr>) = handleURL MainGo id env_ok
   \<and> handleURL Part000 id (env_ok\<lparr>edit_ok := (\<lambda>k. False)\<rparr>) = handleURL Part000 id env_ok"
  using edit_failure_swallowed [where v = MainGo and fl = id and e = env_ok and f = "\<lambda>k. False"]
    edit_failure_swallowed [where v = Part000 and fl = id and e = env_ok and f = "\<lambda>k. False"]
  by simp

text \<open>
  Claim C10. When sending the first message fails, the run is that one send and a log line:
  no HEAD, no GET, no temporary file, no other message sent or edited, no clock reading.
\<close>

theorem failed_status_send_stops:
  assumes "\<not> status_ok e"
  shows "handleURL v fl e = world0\<lparr>trace := [SendMessage Starting, LogPrintf]\<rparr>"
  using assms by (simp add: handleURL_def bot_Send_message_def emit_def world0_def)

theorem failed_status_send_stops_witness:
  "\<not> status_ok env_nostatus
   \<and> handleURL Part000 id env_nostatus = world0\<lparr>trace := [SendMessage Starting, LogPrintf]\<rparr>"
proof -
  have h: "\<not> status_ok env_nostatus"
    by (simp add: env_defs)
  show ?thesis
    using h failed_status_send_stops [OF h, where v = Part000 and fl = id] by simp
qed

end
